theory Spec2Isabelle
  imports Main "HOL-Library.Sublist" "HOL-Library.AList"
begin

section \<open>Python values and string operations used by dxr/vcs.py\<close>

text \<open>
  Exceptions of the Python source are values: every function that can raise returns
  \<open>error + 'a\<close>, with \<open>Inl\<close> for the exception.
\<close>

datatype error = ValueError | TypeError | KeyError | OSError | CalledProcessError

definition startswith :: "string \<Rightarrow> string \<Rightarrow> bool" where
  "startswith s p = prefix p s"

definition endswith :: "string \<Rightarrow> string \<Rightarrow> bool" where
  "endswith s e = suffix e s"

text \<open>\<^verbatim>\<open>s.split(c)\<close> with an explicit one-character separator: always at least one piece.\<close>

fun split_on :: "char \<Rightarrow> string \<Rightarrow> string list" where
  "split_on c [] = [[]]"
| "split_on c (x # xs) =
     (if x = c then [] # split_on c xs
      else (case split_on c xs of [] \<Rightarrow> [[x]] | h # t \<Rightarrow> (x # h) # t))"

text \<open>\<^verbatim>\<open>s.join(parts)\<close>.\<close>

fun str_join :: "string \<Rightarrow> string list \<Rightarrow> string" where
  "str_join s [] = []"
| "str_join s [x] = x"
| "str_join s (x # y # ys) = x @ s @ str_join s (y # ys)"

text \<open>
  The whitespace of a Python 2 byte string: space, tab, line feed, carriage return,
  vertical tab, form feed.
\<close>

definition isspace :: "char \<Rightarrow> bool" where
  "isspace c = (c = CHR '' '' \<or> c = CHR 0x09 \<or> c = CHR 0x0A \<or> c = CHR 0x0D
                \<or> c = CHR 0x0B \<or> c = CHR 0x0C)"

text \<open>\<^verbatim>\<open>s.split()\<close> without a separator: runs of whitespace separate, no empty pieces.\<close>

fun split_ws :: "string \<Rightarrow> string \<Rightarrow> string list" where
  "split_ws cur [] = (if cur = [] then [] else [cur])"
| "split_ws cur (c # cs) =
     (if isspace c then (if cur = [] then split_ws [] cs else cur # split_ws [] cs)
      else split_ws (cur @ [c]) cs)"

definition py_split :: "string \<Rightarrow> string list" where
  "py_split s = split_ws [] s"

text \<open>\<^verbatim>\<open>s.strip()\<close>.\<close>

definition strip :: "string \<Rightarrow> string" where
  "strip s = rev (dropWhile isspace (rev (dropWhile isspace s)))"

text \<open>
  \<^verbatim>\<open>s.splitlines()\<close> of a byte string: a line ends at LF, CR or CR LF; a final line
  without terminator is kept, an empty tail is not. The flag says that the previous
  character was a CR, whose LF is then swallowed.
\<close>

fun splitlines_from :: "bool \<Rightarrow> string \<Rightarrow> string \<Rightarrow> string list" where
  "splitlines_from after_cr cur [] = (if cur = [] then [] else [cur])"
| "splitlines_from after_cr cur (c # cs) =
     (if c = CHR 0x0A then
        (if after_cr then splitlines_from False cur cs
         else cur # splitlines_from False [] cs)
      else if c = CHR 0x0D then cur # splitlines_from True [] cs
      else splitlines_from False (cur @ [c]) cs)"

definition splitlines :: "string \<Rightarrow> string list" where
  "splitlines s = splitlines_from False [] s"

section \<open>posixpath: join, normpath, abspath, relpath, dirname\<close>

text \<open>
  The source imports \<^verbatim>\<open>relpath\<close>, \<^verbatim>\<open>join\<close> and \<^verbatim>\<open>os.path.dirname\<close> from the Python 2
  standard library (posixpath). The current working directory, which \<^verbatim>\<open>abspath\<close>
  reads from the process, is the explicit argument \<open>cwd\<close>.
\<close>

definition isabs :: "string \<Rightarrow> bool" where
  "isabs s = startswith s ''/''"

definition join :: "string \<Rightarrow> string \<Rightarrow> string" where
  "join a b =
     (if startswith b ''/'' then b
      else if a = [] \<or> endswith a ''/'' then a @ b
      else a @ ''/'' @ b)"

definition join_all :: "string \<Rightarrow> string list \<Rightarrow> string" where
  "join_all a p = foldl join a p"

definition normpath_step :: "nat \<Rightarrow> string list \<Rightarrow> string \<Rightarrow> string list" where
  "normpath_step initial_slashes new_comps cmp =
     (if cmp = [] \<or> cmp = ''.'' then new_comps
      else if cmp \<noteq> ''..'' \<or> (initial_slashes = 0 \<and> new_comps = [])
              \<or> (new_comps \<noteq> [] \<and> last new_comps = ''..'')
           then new_comps @ [cmp]
      else if new_comps \<noteq> [] then butlast new_comps
      else new_comps)"

definition normpath :: "string \<Rightarrow> string" where
  "normpath path =
     (if path = [] then ''.''
      else
        let initial_slashes =
              (if startswith path ''/''
               then (if startswith path ''//'' \<and> \<not> startswith path ''///'' then 2 else 1)
               else (0::nat));
            comps = foldl (normpath_step initial_slashes) [] (split_on CHR ''/'' path);
            joined = str_join ''/'' comps;
            slashed = (if initial_slashes \<noteq> 0
                       then replicate initial_slashes CHR ''/'' @ joined else joined)
        in if slashed = [] then ''.'' else slashed)"

definition abspath :: "string \<Rightarrow> string \<Rightarrow> string" where
  "abspath cwd path = normpath (if isabs path then path else join cwd path)"

fun commonprefix :: "'a list \<Rightarrow> 'a list \<Rightarrow> 'a list" where
  "commonprefix (x # xs) (y # ys) = (if x = y then x # commonprefix xs ys else [])"
| "commonprefix xs ys = []"

definition path_parts :: "string \<Rightarrow> string list" where
  "path_parts p = filter (\<lambda>x. x \<noteq> []) (split_on CHR ''/'' p)"

definition relpath :: "string \<Rightarrow> string \<Rightarrow> string \<Rightarrow> error + string" where
  "relpath cwd path start =
     (if path = [] then Inl ValueError
      else
        let start_list = path_parts (abspath cwd start);
            path_list = path_parts (abspath cwd path);
            i = length (commonprefix start_list path_list);
            rel_list = replicate (length start_list - i) ''..'' @ drop i path_list
        in (case rel_list of [] \<Rightarrow> Inr ''.'' | a # p \<Rightarrow> Inr (join_all a p)))"

definition rstrip_slash :: "string \<Rightarrow> string" where
  "rstrip_slash s = rev (dropWhile (\<lambda>c. c = CHR ''/'') (rev s))"

definition dirname :: "string \<Rightarrow> string" where
  "dirname p =
     (let head = rev (dropWhile (\<lambda>c. c \<noteq> CHR ''/'') (rev p))
      in if head \<noteq> [] \<and> head \<noteq> replicate (length head) CHR ''/''
         then rstrip_slash head else head)"

section \<open>Repository handles\<close>

text \<open>
  A handle is an instance of one of the three subclasses of \<^verbatim>\<open>Vcs\<close>; each record holds
  the fields the constructor of its class sets. A Python dict is an association list
  with distinct keys (\<open>map_of\<close> looks a key up), the set of tracked files of Git is a
  set. \<open>git_upstream\<close> is \<open>None\<close> when \<^verbatim>\<open>_construct_upstream_url\<close> returns without a
  value.
\<close>

type_synonym p4_record = "(string \<times> string) list"

record mercurial =
  hg_root :: string
  hg_revision :: string
  previous_revisions :: "(string \<times> string) list"
  hg_upstream :: string

record git =
  git_root :: string
  tracked_files :: "string set"
  git_revision :: string
  git_upstream :: "string option"

record perforce =
  p4_root :: string
  p4_have :: "(string \<times> p4_record) list"
  p4_upstream :: string

datatype vcs = Mercurial mercurial | Git git | Perforce perforce

fun get_root_dir :: "vcs \<Rightarrow> string" where
  "get_root_dir (Mercurial self) = hg_root self"
| "get_root_dir (Git self) = git_root self"
| "get_root_dir (Perforce self) = p4_root self"

fun is_tracked :: "vcs \<Rightarrow> string \<Rightarrow> bool" where
  "is_tracked (Mercurial self) path = (map_of (previous_revisions self) path \<noteq> None)"
| "is_tracked (Git self) path = (path \<in> tracked_files self)"
| "is_tracked (Perforce self) path = (map_of (p4_have self) path \<noteq> None)"





section \<open>The environment of discovery\<close>

text \<open>
  What \<^verbatim>\<open>os.walk\<close> finds below a directory: the entries it classifies as directories,
  each with what the walk finds below it, and the other names. \<open>NotWalked\<close> stands for
  a directory whose walk yields nothing: one that \<^verbatim>\<open>listdir\<close> cannot read (the error is
  swallowed by \<^verbatim>\<open>os.walk\<close>) or a symbolic link, which is listed but not followed.
\<close>

datatype fstree = NotWalked | Listing "(string \<times> fstree) list" "string list"

text \<open>
  Everything the module reads from outside: the process environment, the file system,
  and the output of the version-control commands run in a directory (\<open>Inl\<close> when the
  call raises). \<open>hg_tip\<close> is the node of \<^verbatim>\<open>client.tip()\<close>, \<open>hg_previous_revisions\<close> the
  output of the \<^verbatim>\<open>previous-revisions\<close> command. \<open>hg_upstream_url\<close> is the value of
  \<^verbatim>\<open>Mercurial._construct_upstream_url\<close>, which rebuilds the output of
  \<^verbatim>\<open>hg paths default\<close> with the urlparse library. \<open>p4_have_run\<close> is the list of records
  \<^verbatim>\<open>_p4run(['have'])\<close> unmarshals.
\<close>

record world =
  environ_P4CONFIG :: "string option"
  path_exists :: "string \<Rightarrow> bool"
  listdir :: "string \<Rightarrow> error + string list"
  walk_top :: fstree
  hg_tip :: "string \<Rightarrow> error + string"
  hg_previous_revisions :: "string \<Rightarrow> error + string"
  hg_upstream_url :: "string \<Rightarrow> error + string"
  git_ls_files :: "string \<Rightarrow> error + string"
  git_rev_parse :: "string \<Rightarrow> error + string"
  git_remote_v :: "string \<Rightarrow> error + string"
  p4_have_run :: "string \<Rightarrow> error + p4_record list"

record tree_config =
  source_folder :: string
  p4web_url :: string

section \<open>Constructors of the handles\<close>

text \<open>
  \<^verbatim>\<open>find_previous_revisions\<close>: each line is \<^verbatim>\<open>node:path\<close>; \<^verbatim>\<open>line.split(':', 1)\<close> of a
  line without a colon has one element and the unpacking raises ValueError.
\<close>

fun find_previous_revisions ::
  "string list \<Rightarrow> (string \<times> string) list \<Rightarrow> error + (string \<times> string) list" where
  "find_previous_revisions [] last_change = Inr last_change"
| "find_previous_revisions (line # lines) last_change =
     (if CHR '':'' \<in> set line
      then find_previous_revisions lines
             (AList.update (tl (dropWhile (\<lambda>c. c \<noteq> CHR '':'') line))
                           (takeWhile (\<lambda>c. c \<noteq> CHR '':'') line) last_change)
      else Inl ValueError)"

definition Mercurial_init :: "world \<Rightarrow> string \<Rightarrow> error + vcs" where
  "Mercurial_init w r =
     (case hg_tip w r of
        Inl e \<Rightarrow> Inl e
      | Inr node \<Rightarrow>
          (case hg_previous_revisions w r of
             Inl e \<Rightarrow> Inl e
           | Inr out \<Rightarrow>
               (case find_previous_revisions (splitlines out) [] of
                  Inl e \<Rightarrow> Inl e
                | Inr prev \<Rightarrow>
                    (case hg_upstream_url w r of
                       Inl e \<Rightarrow> Inl e
                     | Inr up \<Rightarrow>
                         Inr (Mercurial \<lparr>hg_root = r, hg_revision = node,
                                previous_revisions = prev, hg_upstream = up\<rparr>)))))"

text \<open>
  Modelled from the spec: \<^verbatim>\<open>dxr.utils.without_ending\<close> is imported by the source and is not
  part of it; the spec says the web-style remote branch "strips a versioning suffix".
\<close>

definition without_ending :: "string \<Rightarrow> string \<Rightarrow> string" where
  "without_ending ending s =
     (if endswith s ending then take (length s - length ending) s else s)"

definition unsupported_remote_warning :: string where
  "unsupported_remote_warning =
     ''Your git remote is not supported yet. Please use a GitHub remote if you would like version control naviagtion links to show.''"

text \<open>
  The loop of \<^verbatim>\<open>Git._construct_upstream_url\<close> over the lines of \<^verbatim>\<open>git remote -v\<close>. The
  result is the returned URL (\<open>None\<close> when the function ends without \<^verbatim>\<open>return\<close>) and
  the warnings issued. A non-empty line that does not split into three words raises
  ValueError at the unpacking.
\<close>

fun upstream_of_remotes :: "string list \<Rightarrow> error + (string option \<times> string list)" where
  "upstream_of_remotes [] = Inr (None, [])"
| "upstream_of_remotes (src_url # source_urls) =
     (if src_url = [] then upstream_of_remotes source_urls
      else
        (case py_split src_url of
           [name, repo, u] \<Rightarrow>
             (if name = ''origin'' then
                (if startswith repo ''git@github.com:''
                 then Inr (Some (''https://github.com/'' @ drop (length ''git@github.com:'') repo), [])
                 else if startswith repo ''git://github.com/'' \<or> startswith repo ''https://github.com/''
                 then
                   (let repo1 = without_ending ''.git'' repo;
                        repo2 = (if startswith repo1 ''git:''
                                 then ''https'' @ drop (length ''git'') repo1 else repo1)
                    in Inr (Some repo2, []))
                 else Inr (None, [unsupported_remote_warning]))
              else upstream_of_remotes source_urls)
         | _ \<Rightarrow> Inl ValueError))"

definition Git_construct_upstream_url :: "world \<Rightarrow> string \<Rightarrow> error + (string option \<times> string list)" where
  "Git_construct_upstream_url w r =
     (case git_remote_v w r of
        Inl e \<Rightarrow> Inl e
      | Inr out \<Rightarrow> upstream_of_remotes (split_on (CHR 0x0A) out))"

text \<open>\<^verbatim>\<open>Git.__init__\<close>: the handle and the warnings issued while it was built.\<close>

definition Git_init :: "world \<Rightarrow> string \<Rightarrow> error + (vcs \<times> string list)" where
  "Git_init w r =
     (case git_ls_files w r of
        Inl e \<Rightarrow> Inl e
      | Inr ls \<Rightarrow>
          (case git_rev_parse w r of
             Inl e \<Rightarrow> Inl e
           | Inr rv \<Rightarrow>
               (case Git_construct_upstream_url w r of
                  Inl e \<Rightarrow> Inl e
                | Inr (up, warnings) \<Rightarrow>
                    Inr (Git \<lparr>git_root = r, tracked_files = set (splitlines ls),
                              git_revision = strip rv, git_upstream = up\<rparr>, warnings))))"

text \<open>
  \<^verbatim>\<open>dict((x['path'][len(root) + 1:], x) for x in have)\<close>: a record without the key
  \<^verbatim>\<open>path\<close> raises KeyError; a later record replaces an earlier one with the same key.
\<close>

fun have_dict ::
  "string \<Rightarrow> p4_record list \<Rightarrow> (string \<times> p4_record) list \<Rightarrow> error + (string \<times> p4_record) list" where
  "have_dict r [] acc = Inr acc"
| "have_dict r (x # xs) acc =
     (case map_of x ''path'' of
        None \<Rightarrow> Inl KeyError
      | Some p \<Rightarrow> have_dict r xs (AList.update (drop (length r + 1) p) x acc))"

definition Perforce_init :: "world \<Rightarrow> string \<Rightarrow> string \<Rightarrow> error + vcs" where
  "Perforce_init w r up =
     (case p4_have_run w r of
        Inl e \<Rightarrow> Inl e
      | Inr hv \<Rightarrow>
          (case have_dict r hv [] of
             Inl e \<Rightarrow> Inl e
           | Inr d \<Rightarrow> Inr (Perforce \<lparr>p4_root = r, p4_have = d, p4_upstream = up\<rparr>)))"

section \<open>claim\_vcs\_source and tree\_to\_repos\<close>

datatype vcs_class = Cls_Mercurial | Cls_Git | Cls_Perforce

definition every_vcs :: "vcs_class list" where
  "every_vcs = [Cls_Mercurial, Cls_Git, Cls_Perforce]"

text \<open>
  \<^verbatim>\<open>cls.claim_vcs_source(path, dirs, tree)\<close> returns the handle or \<open>None\<close>, and the list
  \<open>dirs\<close> as the call leaves it (\<^verbatim>\<open>dirs.remove\<close> deletes the first occurrence). The
  warnings of the Git constructor go to the standard error stream and are dropped here.
\<close>

fun claim_vcs_source ::
  "world \<Rightarrow> vcs_class \<Rightarrow> string \<Rightarrow> string list \<Rightarrow> tree_config \<Rightarrow> error + (vcs option \<times> string list)" where
  "claim_vcs_source w Cls_Mercurial path dirs t =
     (if ''.hg'' \<in> set dirs
      then (case Mercurial_init w path of
              Inl e \<Rightarrow> Inl e
            | Inr h \<Rightarrow> Inr (Some h, remove1 ''.hg'' dirs))
      else Inr (None, dirs))"
| "claim_vcs_source w Cls_Git path dirs t =
     (if ''.git'' \<in> set dirs
      then (case Git_init w path of
              Inl e \<Rightarrow> Inl e
            | Inr (h, warnings) \<Rightarrow> Inr (Some h, remove1 ''.git'' dirs))
      else Inr (None, dirs))"
| "claim_vcs_source w Cls_Perforce path dirs t =
     (case environ_P4CONFIG w of
        None \<Rightarrow> Inr (None, dirs)
      | Some name \<Rightarrow>
          (if path_exists w (join path name)
           then (case Perforce_init w path (p4web_url t) of
                   Inl e \<Rightarrow> Inl e
                 | Inr h \<Rightarrow> Inr (Some h, dirs))
           else Inr (None, dirs)))"

text \<open>
  The inner loop of the downward walk, \<^verbatim>\<open>for vcs in every_vcs\<close>, at one directory:
  \<open>sources[attempt.root] = attempt\<close> for every class that claims.
\<close>

fun claim_each ::
  "world \<Rightarrow> tree_config \<Rightarrow> vcs_class list \<Rightarrow> string \<Rightarrow> string list \<Rightarrow> (string \<times> vcs) list
     \<Rightarrow> error + (string list \<times> (string \<times> vcs) list)" where
  "claim_each w t [] cwd dirs sources = Inr (dirs, sources)"
| "claim_each w t (c # cs) cwd dirs sources =
     (case claim_vcs_source w c cwd dirs t of
        Inl e \<Rightarrow> Inl e
      | Inr (attempt, dirs') \<Rightarrow>
          claim_each w t cs cwd dirs'
            (case attempt of
               None \<Rightarrow> sources
             | Some a \<Rightarrow> AList.update (get_root_dir a) a sources))"

text \<open>
  \<^verbatim>\<open>for cwd, dirs, files in os.walk(tree.source_folder)\<close>, top-down: the claims at a
  directory edit \<open>dirs\<close>, and the walk then descends into the names left in it.
\<close>

function walk ::
    "world \<Rightarrow> tree_config \<Rightarrow> string \<Rightarrow> fstree \<Rightarrow> (string \<times> vcs) list \<Rightarrow> error + (string \<times> vcs) list"
  and walk_dirs ::
    "world \<Rightarrow> tree_config \<Rightarrow> string \<Rightarrow> (string \<times> fstree) list \<Rightarrow> string list \<Rightarrow> (string \<times> vcs) list
       \<Rightarrow> error + (string \<times> vcs) list" where
  "walk w t top_dir NotWalked sources = Inr sources"
| "walk w t top_dir (Listing entries files) sources =
     (case claim_each w t every_vcs top_dir (map fst entries) sources of
        Inl e \<Rightarrow> Inl e
      | Inr (dirs, sources') \<Rightarrow> walk_dirs w t top_dir entries dirs sources')"
| "walk_dirs w t top_dir entries [] sources = Inr sources"
| "walk_dirs w t top_dir entries (name # names) sources =
     (case map_of entries name of
        None \<Rightarrow> walk_dirs w t top_dir entries names sources
      | Some sub \<Rightarrow>
          (case walk w t (join top_dir name) sub sources of
             Inl e \<Rightarrow> Inl e
           | Inr sources' \<Rightarrow> walk_dirs w t top_dir entries names sources'))"
  by pat_completeness auto

termination
proof (relation "inv_image (less_than <*lex*> less_than)
    (\<lambda>x. case x of
       Inl (w, t, top_dir, tr, sources) \<Rightarrow> (size tr, 0)
     | Inr (w, t, top_dir, entries, names, sources) \<Rightarrow>
         (size_list (size_prod (\<lambda>x. 0) size) entries, Suc (length names)))", goal_cases)
  case 1
  show ?case by (intro wf_inv_image wf_lex_prod wf_less_than)
next
  case (2 w t top_dir entries files sources x dirs sources')
  show ?case by simp
next
  case (3 w t top_dir entries name names sources)
  show ?case by simp
next
  case (4 w t top_dir entries name names sources sub)
  have "(name, sub) \<in> set entries" using 4 by (rule map_of_SomeD)
  then have "size sub < size_list (size_prod (\<lambda>x. 0) size) entries"
    by (induction entries) auto
  then show ?case by simp
next
  case (5 w t top_dir entries name names sources sub sources')
  show ?case by simp
qed

text \<open>
  The inner loop of the upward walk at one ancestor: each class is given a fresh
  \<^verbatim>\<open>os.listdir(directory)\<close>, and a claim is stored under \<open>directory\<close>.
\<close>

fun claim_up ::
  "world \<Rightarrow> tree_config \<Rightarrow> vcs_class list \<Rightarrow> string \<Rightarrow> (string \<times> vcs) list
     \<Rightarrow> error + (string \<times> vcs) list" where
  "claim_up w t [] directory sources = Inr sources"
| "claim_up w t (c # cs) directory sources =
     (case listdir w directory of
        Inl e \<Rightarrow> Inl e
      | Inr names \<Rightarrow>
          (case claim_vcs_source w c directory names t of
             Inl e \<Rightarrow> Inl e
           | Inr (attempt, names') \<Rightarrow>
               claim_up w t cs directory
                 (case attempt of
                    None \<Rightarrow> sources
                  | Some a \<Rightarrow> AList.update directory a sources)))"

text \<open>
  \<^verbatim>\<open>while directory != '/' and directory not in sources\<close>. The loop need not end, so
  the result is an option: \<open>None\<close> is a loop that runs forever.
\<close>

partial_function (option) walk_up ::
  "world \<Rightarrow> tree_config \<Rightarrow> string \<Rightarrow> (string \<times> vcs) list \<Rightarrow> (error + (string \<times> vcs) list) option" where
  "walk_up w t directory sources =
     (if directory \<noteq> ''/'' \<and> directory \<notin> fst ` set sources
      then (case claim_up w t every_vcs (dirname directory) sources of
              Inl e \<Rightarrow> Some (Inl e)
            | Inr sources' \<Rightarrow> walk_up w t (dirname directory) sources')
      else Some (Inr sources))"

declare walk_up.simps [code]

text \<open>
  \<^verbatim>\<open>sorted(sources.keys(), key=len, reverse=True)\<close>: a stable sort; with
  \<^verbatim>\<open>reverse=True\<close> Python reverses the list, sorts it and reverses the result. The
  argument is the dict in the order its keys are iterated, which Python 2 does not
  specify: the properties below hold for every order.
\<close>

definition lookup_order :: "(string \<times> vcs) list \<Rightarrow> string list" where
  "lookup_order sources = rev (sort_key length (rev (map fst sources)))"

text \<open>
  The OrderedDict filled in \<open>lookup_order\<close>; every key comes from \<open>sources\<close>, so
  \<^verbatim>\<open>sources[key]\<close> is always found.
\<close>

definition ordered_sources :: "(string \<times> vcs) list \<Rightarrow> (string \<times> vcs) list" where
  "ordered_sources sources =
     List.map_filter (\<lambda>key. map_option (Pair key) (map_of sources key)) (lookup_order sources)"

definition tree_to_repos :: "world \<Rightarrow> tree_config \<Rightarrow> (error + (string \<times> vcs) list) option" where
  "tree_to_repos w t =
     (case walk w t (source_folder t) (walk_top w) [] of
        Inl e \<Rightarrow> Some (Inl e)
      | Inr sources \<Rightarrow>
          (case walk_up w t (source_folder t) sources of
             None \<Rightarrow> None
           | Some (Inl e) \<Rightarrow> Some (Inl e)
           | Some (Inr sources') \<Rightarrow> Some (Inr (ordered_sources sources'))))"

section \<open>VcsCache\<close>

record VcsCache =
  tree :: tree_config
  repos :: "(string \<times> vcs) list"
  path_cache :: "string \<rightharpoonup> vcs"

definition VcsCache_init :: "world \<Rightarrow> tree_config \<Rightarrow> (error + VcsCache) option" where
  "VcsCache_init w t =
     (case tree_to_repos w t of
        None \<Rightarrow> None
      | Some (Inl e) \<Rightarrow> Some (Inl e)
      | Some (Inr registry) \<Rightarrow>
          Some (Inr \<lparr>tree = t, repos = registry, path_cache = Map.empty\<rparr>))"

text \<open>
  The containment test of the loop in \<^verbatim>\<open>vcs_for_path\<close>: the root is skipped when
  \<^verbatim>\<open>relpath(abs_path, directory).startswith('..')\<close>.
\<close>

definition skips_root :: "string \<Rightarrow> string \<Rightarrow> string \<Rightarrow> error + bool" where
  "skips_root cwd abs_path directory =
     (case relpath cwd abs_path directory of
        Inl e \<Rightarrow> Inl e
      | Inr rel \<Rightarrow> Inr (startswith rel ''..''))"

text \<open>
  The \<^verbatim>\<open>for directory, vcs in self.repos.iteritems()\<close> loop: the handle that the loop
  stores in the cache before \<^verbatim>\<open>break\<close>, or \<open>None\<close> when the loop runs to its end.
\<close>

fun repos_loop :: "string \<Rightarrow> string \<Rightarrow> (string \<times> vcs) list \<Rightarrow> error + vcs option" where
  "repos_loop cwd abs_path [] = Inr None"
| "repos_loop cwd abs_path ((directory, v) # rest) =
     (case skips_root cwd abs_path directory of
        Inl e \<Rightarrow> Inl e
      | Inr True \<Rightarrow> repos_loop cwd abs_path rest
      | Inr False \<Rightarrow>
          (case relpath cwd abs_path (get_root_dir v) of
             Inl e \<Rightarrow> Inl e
           | Inr rel \<Rightarrow>
               if is_tracked v rel then Inr (Some v)
               else repos_loop cwd abs_path rest))"

text \<open>
  \<^verbatim>\<open>vcs_for_path\<close> returns its result and the session after the call. The last line of
  the source, \<^verbatim>\<open>self._path_cache.get(path)\<close>, reads the cache and writes nothing.
\<close>

definition vcs_for_path :: "string \<Rightarrow> VcsCache \<Rightarrow> string \<Rightarrow> (error + vcs option) \<times> VcsCache" where
  "vcs_for_path cwd s path =
     (case path_cache s path of
        Some v \<Rightarrow> (Inr (Some v), s)
      | None \<Rightarrow>
          (case repos_loop cwd (join (source_folder (tree s)) path) (repos s) of
             Inl e \<Rightarrow> (Inl e, s)
           | Inr found \<Rightarrow>
               (let cache = (case found of
                               None \<Rightarrow> path_cache s
                             | Some v \<Rightarrow> (path_cache s)(path \<mapsto> v))
                in (Inr (cache path), s\<lparr>path_cache := cache\<rparr>))))"

section \<open>Properties used to state the claims\<close>

definition contains_path :: "string \<Rightarrow> string \<Rightarrow> string \<Rightarrow> bool" where
  "contains_path cwd abs_path directory = (skips_root cwd abs_path directory = Inr False)"

definition reports_tracked :: "string \<Rightarrow> string \<Rightarrow> vcs \<Rightarrow> bool" where
  "reports_tracked cwd abs_path v =
     (case relpath cwd abs_path (get_root_dir v) of
        Inl e \<Rightarrow> False
      | Inr rel \<Rightarrow> is_tracked v rel)"

definition cache_consistent :: "string \<Rightarrow> VcsCache \<Rightarrow> bool" where
  "cache_consistent cwd s =
     (\<forall>p v. path_cache s p = Some v \<longrightarrow>
        repos_loop cwd (join (source_folder (tree s)) p) (repos s) = Inr (Some v))"

definition strict_subdir :: "string \<Rightarrow> string \<Rightarrow> bool" where
  "strict_subdir r1 r2 =
     (let d = (if endswith r2 ''/'' then r2 else r2 @ ''/'')
      in prefix d r1 \<and> length d < length r1)"

text \<open>An absolute path with exactly one leading slash.\<close>

definition single_slash_abs :: "string \<Rightarrow> bool" where
  "single_slash_abs p = (startswith p ''/'' \<and> \<not> startswith p ''//'')"

definition escapes_upward :: "string \<Rightarrow> bool" where
  "escapes_upward rel = (case split_on CHR ''/'' rel of [] \<Rightarrow> False | c # cs \<Rightarrow> c = ''..'')"

definition spec_lies_within :: "string \<Rightarrow> string \<Rightarrow> string \<Rightarrow> bool" where
  "spec_lies_within cwd abs_path directory =
     (case relpath cwd abs_path directory of
        Inl e \<Rightarrow> False
      | Inr rel \<Rightarrow> \<not> escapes_upward rel)"

text \<open>
  A name as \<^verbatim>\<open>os.listdir\<close> yields it: not empty and without a slash; a tree all of whose
  directory names are such names.
\<close>

definition name_ok :: "string \<Rightarrow> bool" where
  "name_ok n = (n \<noteq> [] \<and> CHR ''/'' \<notin> set n)"

primrec names_ok :: "fstree \<Rightarrow> bool" where
  "names_ok NotWalked = True"
| "names_ok (Listing entries files) =
     list_all (\<lambda>(n, ok). name_ok n \<and> ok) (map (map_prod id names_ok) entries)"

text \<open>
  The two assignments of the loops: \<^verbatim>\<open>sources[attempt.root] = attempt\<close> of the downward
  walk and \<^verbatim>\<open>sources[directory] = attempt\<close> of the upward walk, done when the attempt is
  not \<open>None\<close>.
\<close>

definition set_root :: "vcs option \<Rightarrow> (string \<times> vcs) list \<Rightarrow> (string \<times> vcs) list" where
  "set_root attempt sources =
     (case attempt of None \<Rightarrow> sources | Some a \<Rightarrow> AList.update (get_root_dir a) a sources)"

definition set_dir :: "string \<Rightarrow> vcs option \<Rightarrow> (string \<times> vcs) list \<Rightarrow> (string \<times> vcs) list" where
  "set_dir directory attempt sources =
     (case attempt of None \<Rightarrow> sources | Some a \<Rightarrow> AList.update directory a sources)"

section \<open>Example inputs\<close>

definition ex_tree :: tree_config where
  "ex_tree = \<lparr>source_folder = ''/src'', p4web_url = ''http://p4web.example.org''\<rparr>"

definition ex_hg_src :: vcs where
  "ex_hg_src = Mercurial \<lparr>hg_root = ''/src'', hg_revision = ''abc123'',
     previous_revisions = [(''main.c'', ''abc123''), (''vendor/lib/notes.txt'', ''abc000''),
                           (''vendor/lib/deep/f'', ''abc001'')],
     hg_upstream = ''http://hg.example.org/src/''\<rparr>"

definition ex_git_lib :: vcs where
  "ex_git_lib = Git \<lparr>git_root = ''/src/vendor/lib'', tracked_files = {''README.md'', ''deep/f''},
     git_revision = ''def456'', git_upstream = Some ''https://github.com/org/lib''\<rparr>"

definition ex_git_deep :: vcs where
  "ex_git_deep = Git \<lparr>git_root = ''/src/vendor/lib/deep'', tracked_files = {''g''},
     git_revision = ''fff000'', git_upstream = None\<rparr>"

definition ex_git_dots :: vcs where
  "ex_git_dots = Git \<lparr>git_root = ''/src'', tracked_files = {''main.c'', ''..data/index''},
     git_revision = ''0a1b2c'', git_upstream = Some ''https://github.com/org/src''\<rparr>"

definition ex_session :: VcsCache where
  "ex_session = \<lparr>tree = ex_tree,
     repos = [(''/src/vendor/lib'', ex_git_lib), (''/src'', ex_hg_src)],
     path_cache = Map.empty\<rparr>"

definition ex_session3 :: VcsCache where
  "ex_session3 = \<lparr>tree = ex_tree,
     repos = [(''/src/vendor/lib/deep'', ex_git_deep), (''/src/vendor/lib'', ex_git_lib),
              (''/src'', ex_hg_src)],
     path_cache = Map.empty\<rparr>"

definition ex_session_dots :: VcsCache where
  "ex_session_dots = \<lparr>tree = ex_tree, repos = [(''/src'', ex_git_dots)], path_cache = Map.empty\<rparr>"


definition remote_entry :: "string \<Rightarrow> string \<Rightarrow> string \<Rightarrow> string" where
  "remote_entry name url kind = name @ [CHR 0x09] @ url @ '' ('' @ kind @ '')''"

definition remote_line :: "string \<Rightarrow> string \<Rightarrow> string \<Rightarrow> string" where
  "remote_line name url kind = remote_entry name url kind @ [CHR 0x0A]"

definition ex_remote_out :: string where
  "ex_remote_out = remote_line ''fork'' ''https://example.org/fork.git'' ''fetch''
                 @ remote_line ''fork'' ''https://example.org/fork.git'' ''push''
                 @ remote_line ''origin'' ''git@github.com:org/repo.git'' ''fetch''
                 @ remote_line ''origin'' ''git@github.com:org/repo.git'' ''push''"


definition ex_world :: world where
  "ex_world = \<lparr>environ_P4CONFIG = None,
     path_exists = (\<lambda>p. False),
     listdir = (\<lambda>p. Inl OSError),
     walk_top = NotWalked,
     hg_tip = (\<lambda>r. Inr ''abc123abc123abc123''),
     hg_previous_revisions = (\<lambda>r. Inr (''abc123abc123abc123:main.c'' @ [CHR 0x0A])),
     hg_upstream_url = (\<lambda>r. Inr ''http://hg.example.org/src/''),
     git_ls_files = (\<lambda>r. Inr (''README.md'' @ [CHR 0x0A] @ ''lib.c'' @ [CHR 0x0A])),
     git_rev_parse = (\<lambda>r. Inr (''def456def456'' @ [CHR 0x0A])),
     git_remote_v = (\<lambda>r. Inr ex_remote_out),
     p4_have_run = (\<lambda>r. Inl OSError)\<rparr>"


definition ex_world_no_p4config :: world where
  "ex_world_no_p4config = ex_world\<lparr>path_exists := (\<lambda>p. True)\<rparr>"

definition ex_world_p4 :: world where
  "ex_world_p4 = ex_world\<lparr>environ_P4CONFIG := Some ''.p4config'',
     path_exists := (\<lambda>p. p = ''/depot/.p4config''),
     p4_have_run := (\<lambda>r. Inr [[(''code'', ''stat''), (''depotFile'', ''//depot/main.c''),
                                 (''path'', ''/depot/main.c''), (''haveRev'', ''7'')]])\<rparr>"

definition ex_nested_tree :: fstree where
  "ex_nested_tree =
     Listing [(''.hg'', Listing [] [''hgrc'']),
              (''vendor'', Listing [(''lib'', Listing [(''.git'', Listing [] [''config'']),
                                                       (''docs'', Listing [] [])]
                                              [''README.md''])] [])]
             [''main.c'']"

definition ex_world_nested :: world where
  "ex_world_nested = ex_world\<lparr>walk_top := ex_nested_tree\<rparr>"

definition ex_both_tree :: fstree where
  "ex_both_tree = Listing [(''.git'', Listing [] [''config'']), (''.hg'', Listing [] [''hgrc'']),
                           (''docs'', Listing [] [])] [''main.c'']"

definition ex_world_both :: world where
  "ex_world_both = ex_world\<lparr>walk_top := ex_both_tree\<rparr>"

definition ex_hg_handle :: vcs where
  "ex_hg_handle = Mercurial \<lparr>hg_root = ''/src'', hg_revision = ''abc123abc123abc123'',
     previous_revisions = [(''main.c'', ''abc123abc123abc123'')],
     hg_upstream = ''http://hg.example.org/src/''\<rparr>"

definition ex_hg_handle_at :: "string \<Rightarrow> vcs" where
  "ex_hg_handle_at r = Mercurial \<lparr>hg_root = r, hg_revision = ''abc123abc123abc123'',
     previous_revisions = [(''main.c'', ''abc123abc123abc123'')],
     hg_upstream = ''http://hg.example.org/src/''\<rparr>"

definition ex_git_handle :: "string \<Rightarrow> vcs" where
  "ex_git_handle r = Git \<lparr>git_root = r, tracked_files = {''README.md'', ''lib.c''},
     git_revision = ''def456def456'',
     git_upstream = Some ''https://github.com/org/repo.git''\<rparr>"


definition ex_up_listdir :: "string \<Rightarrow> error + string list" where
  "ex_up_listdir p =
     (if p = ''/home/dev/project'' then Inr [''docs'', ''src'']
      else if p = ''/home/dev'' then Inr [''.git'', ''project'', ''notes.txt'']
      else if p = ''/home'' then Inr [''dev'']
      else if p = ''/'' then Inr [''home'', ''etc'']
      else Inl OSError)"

definition ex_up_tree :: tree_config where
  "ex_up_tree = \<lparr>source_folder = ''/home/dev/project/src'', p4web_url = []\<rparr>"

definition ex_world_up :: world where
  "ex_world_up = ex_world\<lparr>walk_top := Listing [] [''main.c''], listdir := ex_up_listdir\<rparr>"

definition ex_plain_listdir :: "string \<Rightarrow> error + string list" where
  "ex_plain_listdir p =
     (if p = ''/srv'' then Inr [''tree'']
      else if p = ''/'' then Inr [''srv'', ''etc'']
      else Inl OSError)"

definition ex_plain_tree :: tree_config where
  "ex_plain_tree = \<lparr>source_folder = ''/srv/tree'', p4web_url = []\<rparr>"

definition ex_world_plain :: world where
  "ex_world_plain = ex_world\<lparr>walk_top := Listing [] [''main.c''], listdir := ex_plain_listdir\<rparr>"

definition ex_anc_listdir :: "string \<Rightarrow> error + string list" where
  "ex_anc_listdir p =
     (if p = ''/home/dev'' then Inr [''.git'', ''.hg'', ''project'']
      else if p = ''/home'' then Inr [''dev'']
      else if p = ''/'' then Inr [''home'', ''etc'']
      else Inl OSError)"

definition ex_anc_tree :: tree_config where
  "ex_anc_tree = \<lparr>source_folder = ''/home/dev/project'', p4web_url = []\<rparr>"

definition ex_world_anc :: world where
  "ex_world_anc = ex_world\<lparr>walk_top := Listing [] [''main.c''], listdir := ex_anc_listdir\<rparr>"

definition ex_dslash_listdir :: "string \<Rightarrow> error + string list" where
  "ex_dslash_listdir p =
     (if p = ''//tmp'' then Inr [''x'']
      else if p = ''//'' then Inr [''tmp'', ''etc'']
      else Inl OSError)"

definition ex_dslash_tree :: tree_config where
  "ex_dslash_tree = \<lparr>source_folder = ''//tmp/x'', p4web_url = []\<rparr>"

definition ex_world_dslash :: world where
  "ex_world_dslash = ex_world\<lparr>walk_top := Listing [] [''main.c''], listdir := ex_dslash_listdir\<rparr>"

section \<open>The resolver: VcsCache.vcs\_for\_path\<close>

lemma relpath_total: "path \<noteq> [] \<Longrightarrow> \<exists>rel. relpath cwd path start = Inr rel"
  by (simp add: relpath_def Let_def split: list.splits)

lemma relpath_empty: "relpath cwd [] start = Inl ValueError"
  by (simp add: relpath_def)

lemma skips_root_cases:
  "abs_path \<noteq> [] \<Longrightarrow> skips_root cwd abs_path d = Inr True \<or> skips_root cwd abs_path d = Inr False"
  using relpath_total[of abs_path cwd d] by (auto simp: skips_root_def)

lemma repos_loop_skip:
  assumes "abs_path \<noteq> []"
    and "\<forall>(d, v) \<in> set before. contains_path cwd abs_path d \<longrightarrow> \<not> reports_tracked cwd abs_path v"
  shows "repos_loop cwd abs_path (before @ rest) = repos_loop cwd abs_path rest"
  using assms(2)
proof (induction before)
  case Nil
  then show ?case by simp
next
  case (Cons a before)
  obtain d v where a: "a = (d, v)" by (cases a)
  from relpath_total[OF assms(1)] obtain rel where rel: "relpath cwd abs_path (get_root_dir v) = Inr rel"
    by blast
  from skips_root_cases[OF assms(1), of cwd d] Cons show ?case
    by (auto simp: a rel contains_path_def reports_tracked_def)
qed

lemma repos_loop_hit:
  assumes "contains_path cwd abs_path d" "reports_tracked cwd abs_path v"
  shows "repos_loop cwd abs_path ((d, v) # rest) = Inr (Some v)"
  using assms by (auto simp: contains_path_def reports_tracked_def split: sum.splits)

lemma contains_path_nonempty: "contains_path cwd abs_path d \<Longrightarrow> abs_path \<noteq> []"
  by (auto simp: contains_path_def skips_root_def relpath_empty)

lemma vcs_for_path_consistent:
  "cache_consistent cwd s \<Longrightarrow>
     fst (vcs_for_path cwd s p) = repos_loop cwd (join (source_folder (tree s)) p) (repos s)"
  by (auto simp: cache_consistent_def vcs_for_path_def Let_def split: option.splits sum.splits)

lemma cache_consistent_fresh: "path_cache s = Map.empty \<Longrightarrow> cache_consistent cwd s"
  by (simp add: cache_consistent_def)

lemma cache_consistent_step:
  "cache_consistent cwd s \<Longrightarrow> cache_consistent cwd (snd (vcs_for_path cwd s p))"
  by (auto simp: cache_consistent_def vcs_for_path_def Let_def split: option.splits sum.splits)

text \<open>
  The test of the loop accepts only paths that lie within the root: a relative path whose
  first component is \<^verbatim>\<open>..\<close> begins with the characters \<^verbatim>\<open>..\<close>.
\<close>

lemma split_on_hd_prefix: "split_on c s = x # xs \<Longrightarrow> prefix x s"
proof (induction s arbitrary: x xs)
  case Nil
  then show ?case by simp
next
  case (Cons a s)
  show ?case
  proof (cases "a = c")
    case True
    then show ?thesis using Cons.prems by simp
  next
    case False
    show ?thesis
    proof (cases "split_on c s")
      case Nil
      then show ?thesis using Cons.prems False by auto
    next
      case (Cons h tl)
      from Cons.IH[OF this] have "prefix h s" .
      then show ?thesis using Cons.prems False Cons by auto
    qed
  qed
qed

lemma escapes_upward_startswith: "escapes_upward rel \<Longrightarrow> startswith rel ''..''"
  by (auto simp: escapes_upward_def startswith_def split: list.splits dest: split_on_hd_prefix)

lemma contains_path_lies_within:
  "contains_path cwd abs_path d \<Longrightarrow> spec_lies_within cwd abs_path d"
  by (auto simp: contains_path_def spec_lies_within_def skips_root_def
      split: sum.splits dest: escapes_upward_startswith)

text \<open>
  C1 (as amended). A path lies under a root \<open>r\<close> (key \<open>d\<close>) whose handle reports it
  untracked, and under a root \<open>r2\<close> (key \<open>d2\<close>) later in the registry whose handle
  reports it tracked; "lies under" is that the relative path from the root does not
  escape upward. If every root consulted before \<open>r2\<close> under which the path lies reports
  it untracked, and the relative path from \<open>r2\<close> does not begin with the characters
  \<^verbatim>\<open>..\<close> (so that the test of the loop accepts \<open>r2\<close>), \<^verbatim>\<open>vcs_for_path\<close> returns the handle
  of \<open>r2\<close>, not that of \<open>r\<close>, and caches it: an untracked result at a containing root
  makes the loop continue with the next root. The session is any consistent one, so
  the path may have been queried before.
\<close>

theorem untracked_root_falls_through:
  assumes "cache_consistent cwd s"
    and "repos s = before @ (d2, r2) # after"
    and "(d, r) \<in> set before"
    and "spec_lies_within cwd (join (source_folder (tree s)) path) d"
    and "\<forall>(d', v') \<in> set before. spec_lies_within cwd (join (source_folder (tree s)) path) d'
            \<longrightarrow> \<not> reports_tracked cwd (join (source_folder (tree s)) path) v'"
    and "spec_lies_within cwd (join (source_folder (tree s)) path) d2"
    and "contains_path cwd (join (source_folder (tree s)) path) d2"
    and "reports_tracked cwd (join (source_folder (tree s)) path) r2"
  shows "fst (vcs_for_path cwd s path) = Inr (Some r2) \<and> r2 \<noteq> r
         \<and> path_cache (snd (vcs_for_path cwd s path)) path = Some r2"
proof -
  let ?ap = "join (source_folder (tree s)) path"
  have ne: "?ap \<noteq> []" using assms(7) by (rule contains_path_nonempty)
  have before: "\<forall>(d', v') \<in> set before. contains_path cwd ?ap d' \<longrightarrow> \<not> reports_tracked cwd ?ap v'"
    using assms(5) contains_path_lies_within by fastforce
  have loop: "repos_loop cwd ?ap (repos s) = Inr (Some r2)"
    unfolding assms(2) using repos_loop_skip[OF ne before] repos_loop_hit[OF assms(7,8)] by simp
  have res: "fst (vcs_for_path cwd s path) = Inr (Some r2)"
    using vcs_for_path_consistent[OF assms(1)] loop by simp
  have "\<not> reports_tracked cwd ?ap r" using assms(3,4,5) by auto
  then have neq: "r2 \<noteq> r" using assms(8) by auto
  have "path_cache (snd (vcs_for_path cwd s path)) path = Some r2"
    using res by (auto simp: vcs_for_path_def Let_def split: option.splits sum.splits)
  with res neq show ?thesis by simp
qed

theorem untracked_root_falls_through_witness:
  "fst (vcs_for_path ''/'' ex_session ''vendor/lib/notes.txt'') = Inr (Some ex_hg_src)
   \<and> ex_hg_src \<noteq> ex_git_lib
   \<and> path_cache (snd (vcs_for_path ''/'' ex_session ''vendor/lib/notes.txt''))
        ''vendor/lib/notes.txt'' = Some ex_hg_src"
proof -
  have h1: "cache_consistent ''/'' ex_session"
    by (rule cache_consistent_fresh) (simp add: ex_session_def)
  have h2: "repos ex_session = [(''/src/vendor/lib'', ex_git_lib)] @ (''/src'', ex_hg_src) # []"
    by (simp add: ex_session_def)
  have h3: "(''/src/vendor/lib'', ex_git_lib) \<in> set [(''/src/vendor/lib'', ex_git_lib)]"
    by simp
  have h4: "spec_lies_within ''/'' (join (source_folder (tree ex_session)) ''vendor/lib/notes.txt'')
              ''/src/vendor/lib''"
    by code_simp
  have h5: "\<forall>(d', v') \<in> set [(''/src/vendor/lib'', ex_git_lib)].
              spec_lies_within ''/'' (join (source_folder (tree ex_session)) ''vendor/lib/notes.txt'') d'
              \<longrightarrow> \<not> reports_tracked ''/'' (join (source_folder (tree ex_session)) ''vendor/lib/notes.txt'') v'"
    by code_simp
  have h6: "spec_lies_within ''/'' (join (source_folder (tree ex_session)) ''vendor/lib/notes.txt'') ''/src''"
    by code_simp
  have h7: "contains_path ''/'' (join (source_folder (tree ex_session)) ''vendor/lib/notes.txt'') ''/src''"
    by code_simp
  have h8: "reports_tracked ''/'' (join (source_folder (tree ex_session)) ''vendor/lib/notes.txt'') ex_hg_src"
    by code_simp
  show ?thesis by (rule untracked_root_falls_through[OF h1 h2 h3 h4 h5 h6 h7 h8])
qed

text \<open>
  Without the condition on the roots consulted before \<open>r2\<close> the claim fails: with three
  nested roots, the innermost not tracking the file and both outer ones tracking it, the
  result is the handle of the middle root, not that of the outermost root \<open>r2\<close>.
\<close>

theorem middle_root_wins_counterexample:
  "(''/src/vendor/lib/deep'', ex_git_deep) \<in> set (repos ex_session3)
   \<and> (''/src'', ex_hg_src) \<in> set (repos ex_session3)
   \<and> strict_subdir ''/src/vendor/lib/deep'' ''/src''
   \<and> contains_path ''/'' (join (source_folder (tree ex_session3)) ''vendor/lib/deep/f'') ''/src/vendor/lib/deep''
   \<and> \<not> reports_tracked ''/'' (join (source_folder (tree ex_session3)) ''vendor/lib/deep/f'') ex_git_deep
   \<and> contains_path ''/'' (join (source_folder (tree ex_session3)) ''vendor/lib/deep/f'') ''/src''
   \<and> reports_tracked ''/'' (join (source_folder (tree ex_session3)) ''vendor/lib/deep/f'') ex_hg_src
   \<and> fst (vcs_for_path ''/'' ex_session3 ''vendor/lib/deep/f'') = Inr (Some ex_git_lib)
   \<and> fst (vcs_for_path ''/'' ex_session3 ''vendor/lib/deep/f'') \<noteq> Inr (Some ex_hg_src)"
  by code_simp






text \<open>
  C5. Calling \<^verbatim>\<open>vcs_for_path\<close> twice for the same path in one session returns the same
  result both times (a handle, \<open>None\<close>, or the same exception), and the registry is the
  same after the first call. The working directory is the same for both calls.
\<close>

theorem resolve_twice_same_result: "fst (vcs_for_path cwd (snd (vcs_for_path cwd s p)) p) = fst (vcs_for_path cwd s p)
    \<and> repos (snd (vcs_for_path cwd s p)) = repos s"
  by (auto simp: vcs_for_path_def Let_def split: option.splits sum.splits)

theorem resolve_twice_same_result_witness:
  "fst (vcs_for_path ''/'' (snd (vcs_for_path ''/'' ex_session ''main.c'')) ''main.c'') = Inr (Some ex_hg_src)
   \<and> repos (snd (vcs_for_path ''/'' ex_session ''main.c'')) = repos ex_session"
proof -
  have h1: "fst (vcs_for_path ''/'' ex_session ''main.c'') = Inr (Some ex_hg_src)"
    by code_simp
  show ?thesis using resolve_twice_same_result[of "''/''" ex_session "''main.c''"] h1 by simp
qed

text \<open>
  C8 (the code departs from the claim). The file \<^verbatim>\<open>..data/index\<close> lies in the subtree of
  the root \<^verbatim>\<open>/src\<close>: its relative path from the root is \<^verbatim>\<open>..data/index\<close>, whose first
  component is not \<^verbatim>\<open>..\<close>. The test of the loop, \<^verbatim>\<open>startswith('..')\<close>, compares
  characters and not components, so the root is skipped; the handle tracks the file and
  is never asked, and the result is \<open>None\<close>.
\<close>

theorem containment_test_rejects_dotdot_names:
  "spec_lies_within ''/'' (join (source_folder (tree ex_session_dots)) ''..data/index'') ''/src''
   \<and> \<not> contains_path ''/'' (join (source_folder (tree ex_session_dots)) ''..data/index'') ''/src''
   \<and> reports_tracked ''/'' (join (source_folder (tree ex_session_dots)) ''..data/index'') ex_git_dots
   \<and> relpath ''/'' (join (source_folder (tree ex_session_dots)) ''..data/index'') ''/src'' = Inr ''..data/index''
   \<and> fst (vcs_for_path ''/'' ex_session_dots ''..data/index'') = Inr None"
  by code_simp


section \<open>Git: the upstream URL and the URL generators\<close>











text \<open>
  C10. \<^verbatim>\<open>Perforce.claim_vcs_source\<close> returns \<open>None\<close>, and leaves \<open>dirs\<close> alone, whenever
  \<^verbatim>\<open>P4CONFIG\<close> is not in the environment, whatever the directory holds. When it returns a
  handle, \<^verbatim>\<open>P4CONFIG\<close> is set and \<^verbatim>\<open>os.path.exists\<close> holds of the path joined from the
  candidate directory and the value of the variable; the handle is rooted at the
  candidate directory.
\<close>

theorem perforce_claim_needs_P4CONFIG:
  "(environ_P4CONFIG w = None \<longrightarrow>
      claim_vcs_source w Cls_Perforce path dirs t = Inr (None, dirs))
   \<and> (claim_vcs_source w' Cls_Perforce path' dirs' t' = Inr (Some h, ds) \<longrightarrow>
        (case environ_P4CONFIG w' of
           None \<Rightarrow> False
         | Some name \<Rightarrow> path_exists w' (join path' name))
        \<and> get_root_dir h = path' \<and> ds = dirs')"
  by (auto simp: Perforce_init_def split: option.splits sum.splits if_splits)

theorem perforce_claim_needs_P4CONFIG_witness:
  "claim_vcs_source ex_world_no_p4config Cls_Perforce ''/depot'' [''.p4config'', ''src''] ex_tree
     = Inr (None, [''.p4config'', ''src''])
   \<and> path_exists ex_world_p4 (join ''/depot'' ''.p4config'')
   \<and> claim_vcs_source ex_world_p4 Cls_Perforce ''/depot'' [''src''] ex_tree =
       Inr (Some (Perforce \<lparr>p4_root = ''/depot'',
              p4_have = [(''main.c'', [(''code'', ''stat''), (''depotFile'', ''//depot/main.c''),
                                      (''path'', ''/depot/main.c''), (''haveRev'', ''7'')])],
              p4_upstream = ''http://p4web.example.org''\<rparr>), [''src''])"
proof -
  have h1: "environ_P4CONFIG ex_world_no_p4config = None"
    by (simp add: ex_world_no_p4config_def ex_world_def)
  have h2: "claim_vcs_source ex_world_p4 Cls_Perforce ''/depot'' [''src''] ex_tree =
       Inr (Some (Perforce \<lparr>p4_root = ''/depot'',
              p4_have = [(''main.c'', [(''code'', ''stat''), (''depotFile'', ''//depot/main.c''),
                                      (''path'', ''/depot/main.c''), (''haveRev'', ''7'')])],
              p4_upstream = ''http://p4web.example.org''\<rparr>), [''src''])"
    by code_simp
  have h3: "environ_P4CONFIG ex_world_p4 = Some ''.p4config''"
    by (simp add: ex_world_p4_def ex_world_def)
  show ?thesis
    using perforce_claim_needs_P4CONFIG[of ex_world_no_p4config "''/depot''" "[''.p4config'', ''src'']" ex_tree
                  ex_world_p4 "''/depot''" "[''src'']" ex_tree _ "[''src'']"] h1 h2 h3
    by simp
qed

section \<open>Discovery: tree\_to\_repos\<close>

lemma Mercurial_init_root: "Mercurial_init w r = Inr h \<Longrightarrow> get_root_dir h = r"
  by (auto simp: Mercurial_init_def split: sum.splits)

lemma Git_init_root: "Git_init w r = Inr (h, ws) \<Longrightarrow> get_root_dir h = r"
  by (auto simp: Git_init_def split: sum.splits)

lemma Perforce_init_root: "Perforce_init w r up = Inr h \<Longrightarrow> get_root_dir h = r"
  by (auto simp: Perforce_init_def split: sum.splits)

lemma claim_perforce_cases:
  "claim_vcs_source w Cls_Perforce path dirs t = Inr (a, ds) \<Longrightarrow>
     ds = dirs \<and> (a = None \<or> (\<exists>h. a = Some h \<and> get_root_dir h = path))"
  by (auto simp: Perforce_init_root split: option.splits sum.splits if_splits)

lemma map_of_update_same: "map_of (AList.update k v al) k = Some v"
  by (simp add: update_conv')

lemma walk_up_step:
  "directory \<noteq> ''/'' \<Longrightarrow> directory \<notin> fst ` set sources \<Longrightarrow>
   claim_up w t every_vcs (dirname directory) sources = Inr sources' \<Longrightarrow>
   walk_up w t directory sources = walk_up w t (dirname directory) sources'"
  by (subst walk_up.simps) simp

lemma walk_up_stop:
  "directory = ''/'' \<or> directory \<in> fst ` set sources \<Longrightarrow>
   walk_up w t directory sources = Some (Inr sources)"
  by (subst walk_up.simps) auto

lemma names_ok_entry:
  "names_ok (Listing entries files) \<Longrightarrow> (n, sub) \<in> set entries \<Longrightarrow> name_ok n \<and> names_ok sub"
  by (force simp: list_all_iff)

lemma join_longer: "name_ok n \<Longrightarrow> length top_dir < length (join top_dir n)"
  by (cases n) (auto simp: join_def name_ok_def startswith_def)

lemma claim_vcs_source_root:
  "claim_vcs_source w c path dirs t = Inr (Some a, ds) \<Longrightarrow> get_root_dir a = path"
  by (cases c)
     (auto simp: Mercurial_init_root Git_init_root Perforce_init_root
           split: if_splits sum.splits option.splits prod.splits)

lemma claim_each_other_keys:
  "claim_each w t cs cwd dirs sources = Inr (dirs', sources') \<Longrightarrow> k \<noteq> cwd \<Longrightarrow>
     map_of sources' k = map_of sources k"
proof (induction cs arbitrary: dirs sources)
  case Nil
  then show ?case by simp
next
  case (Cons c cs)
  from Cons.prems(1) obtain attempt ds where
    a: "claim_vcs_source w c cwd dirs t = Inr (attempt, ds)"
    and r: "claim_each w t cs cwd ds
              (case attempt of None \<Rightarrow> sources | Some a \<Rightarrow> AList.update (get_root_dir a) a sources)
            = Inr (dirs', sources')"
    by (auto split: sum.splits)
  have "map_of (case attempt of None \<Rightarrow> sources | Some a \<Rightarrow> AList.update (get_root_dir a) a sources) k
          = map_of sources k"
  proof (cases attempt)
    case None
    then show ?thesis by simp
  next
    case (Some h)
    then have "get_root_dir h = cwd" using a claim_vcs_source_root by simp
    then show ?thesis using Some Cons.prems(2) by (simp add: update_conv')
  qed
  with Cons.IH[OF r Cons.prems(2)] show ?case by simp
qed

lemma walk_keeps_shorter_keys:
  "walk w t top_dir tr sources = Inr sources' \<Longrightarrow> names_ok tr \<Longrightarrow>
     length k < length top_dir \<Longrightarrow> map_of sources' k = map_of sources k"
  "walk_dirs w t top_dir entries names sources = Inr sources' \<Longrightarrow>
     (\<forall>(n, sub) \<in> set entries. name_ok n \<and> names_ok sub) \<Longrightarrow>
     length k \<le> length top_dir \<Longrightarrow> map_of sources' k = map_of sources k"
proof (induction w t top_dir tr sources and w t top_dir entries names sources
       arbitrary: sources' and sources' rule: walk_walk_dirs.induct)
  case (1 w t top_dir sources)
  then show ?case by simp
next
  case (2 w t top_dir entries files sources)
  from "2.prems"(1) obtain dirs s1 where
    c: "claim_each w t every_vcs top_dir (map fst entries) sources = Inr (dirs, s1)"
    and d: "walk_dirs w t top_dir entries dirs s1 = Inr sources'"
    by (auto split: sum.splits)
  have ok: "\<forall>(n, sub) \<in> set entries. name_ok n \<and> names_ok sub"
    using "2.prems"(2) names_ok_entry by auto
  have neq: "k \<noteq> top_dir" using "2.prems"(3) by auto
  have "map_of sources' k = map_of s1 k"
    using "2.IH"[OF c refl d ok] "2.prems"(3) by simp
  also have "\<dots> = map_of sources k"
    by (rule claim_each_other_keys[OF c neq])
  finally show ?case .
next
  case (3 w t top_dir entries sources)
  then show ?case by simp
next
  case (4 w t top_dir entries name names sources)
  show ?case
  proof (cases "map_of entries name")
    case None
    then show ?thesis using 4 by simp
  next
    case (Some sub)
    from "4.prems"(1) Some obtain s1 where
      a: "walk w t (join top_dir name) sub sources = Inr s1"
      and b: "walk_dirs w t top_dir entries names s1 = Inr sources'"
      by (auto split: sum.splits)
    have mem: "(name, sub) \<in> set entries" using Some by (rule map_of_SomeD)
    then have nok: "name_ok name" "names_ok sub" using "4.prems"(2) by auto
    have "length k < length (join top_dir name)"
      using join_longer[OF nok(1), of top_dir] "4.prems"(3) by simp
    from "4.IH"(2)[OF Some a nok(2) this] have "map_of s1 k = map_of sources k" .
    moreover from "4.IH"(3)[OF Some a b "4.prems"(2,3)] have "map_of sources' k = map_of s1 k" .
    ultimately show ?thesis by simp
  qed
qed


lemma map_of_map_filter_keys:
  "map_of (List.map_filter (\<lambda>key. map_option (Pair key) (f key)) ks) k
     = (if k \<in> set ks then f k else None)"
  by (induction ks) (auto simp: List.map_filter_simps split: option.splits)

lemma map_of_ordered_sources: "map_of (ordered_sources sources) k = map_of sources k"
proof -
  have keys: "set (lookup_order sources) = fst ` set sources" by (simp add: lookup_order_def)
  show ?thesis
  proof (cases "k \<in> fst ` set sources")
    case True
    then show ?thesis using keys by (simp add: ordered_sources_def map_of_map_filter_keys)
  next
    case False
    then have "map_of sources k = None" by (simp add: map_of_eq_None_iff)
    then show ?thesis using keys False by (simp add: ordered_sources_def map_of_map_filter_keys)
  qed
qed

lemma tree_to_repos_parts:
  "tree_to_repos w t = Some (Inr registry) \<Longrightarrow>
     \<exists>s1 s2. walk w t (source_folder t) (walk_top w) [] = Inr s1
            \<and> walk_up w t (source_folder t) s1 = Some (Inr s2)
            \<and> registry = ordered_sources s2"
  by (auto simp: tree_to_repos_def split: sum.splits option.splits)

lemma claim_each_both_markers:
  assumes "''.hg'' \<in> set dirs" and "''.git'' \<in> set dirs"
    and "Mercurial_init w cwd = Inr hg_handle"
    and "Git_init w cwd = Inr (git_handle, warnings)"
    and "claim_vcs_source w Cls_Perforce cwd (remove1 ''.git'' (remove1 ''.hg'' dirs)) t
           = Inr (p4_attempt, dirs')"
  shows "\<exists>sources'.
           claim_each w t every_vcs cwd dirs sources
             = Inr (remove1 ''.git'' (remove1 ''.hg'' dirs), sources')
           \<and> map_of sources' cwd
               = Some (case p4_attempt of None \<Rightarrow> git_handle | Some p4_handle \<Rightarrow> p4_handle)"
proof -
  have git_in: "''.git'' \<in> set (remove1 ''.hg'' dirs)" using assms(2) by simp
  have r1: "get_root_dir hg_handle = cwd" using assms(3) by (rule Mercurial_init_root)
  have r2: "get_root_dir git_handle = cwd" using assms(4) by (rule Git_init_root)
  from claim_perforce_cases[OF assms(5)]
  have p4: "dirs' = remove1 ''.git'' (remove1 ''.hg'' dirs)"
    and p4h: "p4_attempt = None \<or> (\<exists>h. p4_attempt = Some h \<and> get_root_dir h = cwd)"
    by simp_all
  from p4h show ?thesis
  proof
    assume "p4_attempt = None"
    then show ?thesis
      using assms(1,3,4,5) git_in r1 r2 p4
      by (simp add: every_vcs_def map_of_update_same)
  next
    assume "\<exists>h. p4_attempt = Some h \<and> get_root_dir h = cwd"
    then obtain h where h: "p4_attempt = Some h" "get_root_dir h = cwd" by blast
    then show ?thesis
      using assms(1,3,4,5) git_in r1 r2 p4
      by (simp add: every_vcs_def map_of_update_same)
  qed
qed

lemma claim_up_both_markers:
  assumes "listdir w directory = Inr names"
    and "''.hg'' \<in> set names" and "''.git'' \<in> set names"
    and "Mercurial_init w directory = Inr hg_handle"
    and "Git_init w directory = Inr (git_handle, warnings)"
    and "claim_vcs_source w Cls_Perforce directory names t = Inr (p4_attempt, names')"
  shows "\<exists>sources'.
           claim_up w t every_vcs directory sources = Inr sources'
           \<and> map_of sources' directory
               = Some (case p4_attempt of None \<Rightarrow> git_handle | Some p4_handle \<Rightarrow> p4_handle)"
  using assms
  by (cases p4_attempt) (simp_all add: every_vcs_def map_of_update_same)

lemma claim_each_every_class:
  assumes "claim_vcs_source w Cls_Mercurial cwd dirs t = Inr (a1, dirs1)"
    and "claim_vcs_source w Cls_Git cwd dirs1 t = Inr (a2, dirs2)"
    and "claim_vcs_source w Cls_Perforce cwd dirs2 t = Inr (a3, dirs3)"
  shows "claim_each w t every_vcs cwd dirs sources
           = Inr (dirs3, set_root a3 (set_root a2 (set_root a1 sources)))"
  using assms by (simp add: every_vcs_def set_root_def)

lemma claim_up_every_class:
  assumes "listdir w directory = Inr names"
    and "claim_vcs_source w Cls_Mercurial directory names t = Inr (a1, names1)"
    and "claim_vcs_source w Cls_Git directory names t = Inr (a2, names2)"
    and "claim_vcs_source w Cls_Perforce directory names t = Inr (a3, names3)"
  shows "claim_up w t every_vcs directory sources
           = Inr (set_dir directory a3 (set_dir directory a2 (set_dir directory a1 sources)))"
  using assms by (simp add: every_vcs_def set_dir_def)

lemma tree_root_both_markers:
  assumes "tree_to_repos w t = Some (Inr registry)"
    and "walk_top w = Listing entries files" and "names_ok (walk_top w)"
    and "''.hg'' \<in> set (map fst entries)" and "''.git'' \<in> set (map fst entries)"
    and "Mercurial_init w (source_folder t) = Inr hg_handle"
    and "Git_init w (source_folder t) = Inr (git_handle, warnings)"
    and "claim_vcs_source w Cls_Perforce (source_folder t)
           (remove1 ''.git'' (remove1 ''.hg'' (map fst entries))) t = Inr (p4_attempt, dirs')"
  shows "map_of registry (source_folder t)
           = Some (case p4_attempt of None \<Rightarrow> git_handle | Some p4_handle \<Rightarrow> p4_handle)"
proof -
  let ?sf = "source_folder t"
  let ?last = "case p4_attempt of None \<Rightarrow> git_handle | Some p4_handle \<Rightarrow> p4_handle"
  from tree_to_repos_parts[OF assms(1)] obtain s1 s2 where
    w1: "walk w t ?sf (walk_top w) [] = Inr s1"
    and w2: "walk_up w t ?sf s1 = Some (Inr s2)"
    and reg: "registry = ordered_sources s2" by blast
  from claim_each_both_markers[OF assms(4,5,6,7,8), of "[]"] obtain s0 where
    c: "claim_each w t every_vcs ?sf (map fst entries) []
          = Inr (remove1 ''.git'' (remove1 ''.hg'' (map fst entries)), s0)"
    and m0: "map_of s0 ?sf = Some ?last" by blast
  have d: "walk_dirs w t ?sf entries (remove1 ''.git'' (remove1 ''.hg'' (map fst entries))) s0 = Inr s1"
    using w1 c assms(2) by simp
  have ok: "\<forall>(n, sub) \<in> set entries. name_ok n \<and> names_ok sub"
    using assms(2,3) names_ok_entry by auto
  have m1: "map_of s1 ?sf = Some ?last"
    using walk_keeps_shorter_keys(2)[OF d ok, of ?sf] m0 by simp
  then have "?sf \<in> fst ` set s1" by (metis map_of_eq_None_iff option.distinct(1))
  then have "walk_up w t ?sf s1 = Some (Inr s1)" by (intro walk_up_stop) simp
  with w2 have "s2 = s1" by simp
  then show ?thesis using reg m1 by (simp add: map_of_ordered_sources)
qed

lemma ancestor_both_markers:
  assumes "walk w t (source_folder t) (walk_top w) [] = Inr s1"
    and "source_folder t \<notin> fst ` set s1" and "source_folder t \<noteq> ''/''"
    and "listdir w (dirname (source_folder t)) = Inr names"
    and "''.hg'' \<in> set names" and "''.git'' \<in> set names"
    and "Mercurial_init w (dirname (source_folder t)) = Inr hg_handle"
    and "Git_init w (dirname (source_folder t)) = Inr (git_handle, warnings)"
    and "claim_vcs_source w Cls_Perforce (dirname (source_folder t)) names t = Inr (p4_attempt, names')"
  shows "\<exists>registry. tree_to_repos w t = Some (Inr registry)
           \<and> map_of registry (dirname (source_folder t))
               = Some (case p4_attempt of None \<Rightarrow> git_handle | Some p4_handle \<Rightarrow> p4_handle)"
proof -
  let ?sf = "source_folder t"
  let ?d = "dirname ?sf"
  let ?last = "case p4_attempt of None \<Rightarrow> git_handle | Some p4_handle \<Rightarrow> p4_handle"
  from claim_up_both_markers[OF assms(4-9), of s1] obtain s2 where
    c: "claim_up w t every_vcs ?d s1 = Inr s2" and m: "map_of s2 ?d = Some ?last" by blast
  have "?d \<in> fst ` set s2" using m by (metis map_of_eq_None_iff option.distinct(1))
  then have stop: "walk_up w t ?d s2 = Some (Inr s2)" by (intro walk_up_stop) simp
  have "walk_up w t ?sf s1 = walk_up w t ?d s2"
    using assms(2,3) c by (intro walk_up_step) simp_all
  with stop have "walk_up w t ?sf s1 = Some (Inr s2)" by simp
  then have "tree_to_repos w t = Some (Inr (ordered_sources s2))"
    using assms(1) by (simp add: tree_to_repos_def)
  then show ?thesis using m by (simp add: map_of_ordered_sources)
qed

text \<open>
  C3 (as amended). At every directory both loops give every class of \<open>every_vcs\<close> its
  attempt, in the order Mercurial, Git, Perforce, also after an earlier class has
  claimed the directory, and every claim is assigned to the entry of the directory:
  first part for the loop of the downward walk, second part for the loop of the upward
  walk. So a directory holding both \<^verbatim>\<open>.hg\<close> and \<^verbatim>\<open>.git\<close> resolves to the last class that
  claims, the Perforce handle if Perforce claims as well and the Git handle otherwise,
  never the Mercurial handle: third part, the tree root in every registry that
  \<^verbatim>\<open>tree_to_repos\<close> returns; fourth part, the parent of an unclaimed tree root, which the
  upward walk reaches, in the registry that \<^verbatim>\<open>tree_to_repos\<close> then returns.
\<close>

theorem every_class_attempted_last_claim_wins:
  "(claim_vcs_source w Cls_Mercurial cwd dirs t = Inr (a1, dirs1)
      \<and> claim_vcs_source w Cls_Git cwd dirs1 t = Inr (a2, dirs2)
      \<and> claim_vcs_source w Cls_Perforce cwd dirs2 t = Inr (a3, dirs3)
    \<longrightarrow> claim_each w t every_vcs cwd dirs sources
          = Inr (dirs3, set_root a3 (set_root a2 (set_root a1 sources))))
   \<and> (listdir wu directory = Inr names
      \<and> claim_vcs_source wu Cls_Mercurial directory names tu = Inr (b1, names1)
      \<and> claim_vcs_source wu Cls_Git directory names tu = Inr (b2, names2)
      \<and> claim_vcs_source wu Cls_Perforce directory names tu = Inr (b3, names3)
    \<longrightarrow> claim_up wu tu every_vcs directory sources_u
          = Inr (set_dir directory b3 (set_dir directory b2 (set_dir directory b1 sources_u))))
   \<and> (tree_to_repos wd td = Some (Inr registry)
      \<and> walk_top wd = Listing entries files \<and> names_ok (walk_top wd)
      \<and> ''.hg'' \<in> set (map fst entries) \<and> ''.git'' \<in> set (map fst entries)
      \<and> Mercurial_init wd (source_folder td) = Inr hg_d
      \<and> Git_init wd (source_folder td) = Inr (git_d, warnings_d)
      \<and> claim_vcs_source wd Cls_Perforce (source_folder td)
            (remove1 ''.git'' (remove1 ''.hg'' (map fst entries))) td = Inr (p4_d, dirs_d)
    \<longrightarrow> map_of registry (source_folder td)
          = Some (case p4_d of None \<Rightarrow> git_d | Some p4_handle \<Rightarrow> p4_handle))
   \<and> (walk wa ta (source_folder ta) (walk_top wa) [] = Inr s1
      \<and> source_folder ta \<notin> fst ` set s1 \<and> source_folder ta \<noteq> ''/''
      \<and> listdir wa (dirname (source_folder ta)) = Inr names_a
      \<and> ''.hg'' \<in> set names_a \<and> ''.git'' \<in> set names_a
      \<and> Mercurial_init wa (dirname (source_folder ta)) = Inr hg_a
      \<and> Git_init wa (dirname (source_folder ta)) = Inr (git_a, warnings_a)
      \<and> claim_vcs_source wa Cls_Perforce (dirname (source_folder ta)) names_a ta
            = Inr (p4_a, names_a')
    \<longrightarrow> (\<exists>registry_a. tree_to_repos wa ta = Some (Inr registry_a)
           \<and> map_of registry_a (dirname (source_folder ta))
               = Some (case p4_a of None \<Rightarrow> git_a | Some p4_handle \<Rightarrow> p4_handle)))"
proof (intro conjI impI)
  assume a: "claim_vcs_source w Cls_Mercurial cwd dirs t = Inr (a1, dirs1)
      \<and> claim_vcs_source w Cls_Git cwd dirs1 t = Inr (a2, dirs2)
      \<and> claim_vcs_source w Cls_Perforce cwd dirs2 t = Inr (a3, dirs3)"
  show "claim_each w t every_vcs cwd dirs sources
          = Inr (dirs3, set_root a3 (set_root a2 (set_root a1 sources)))"
    by (rule claim_each_every_class[OF a[THEN conjunct1] a[THEN conjunct2, THEN conjunct1] a[THEN conjunct2, THEN conjunct2]])
next
  assume a: "listdir wu directory = Inr names
      \<and> claim_vcs_source wu Cls_Mercurial directory names tu = Inr (b1, names1)
      \<and> claim_vcs_source wu Cls_Git directory names tu = Inr (b2, names2)
      \<and> claim_vcs_source wu Cls_Perforce directory names tu = Inr (b3, names3)"
  show "claim_up wu tu every_vcs directory sources_u
          = Inr (set_dir directory b3 (set_dir directory b2 (set_dir directory b1 sources_u)))"
    by (rule claim_up_every_class[OF a[THEN conjunct1] a[THEN conjunct2, THEN conjunct1] a[THEN conjunct2, THEN conjunct2, THEN conjunct1] a[THEN conjunct2, THEN conjunct2, THEN conjunct2]])
next
  assume a: "tree_to_repos wd td = Some (Inr registry)
      \<and> walk_top wd = Listing entries files \<and> names_ok (walk_top wd)
      \<and> ''.hg'' \<in> set (map fst entries) \<and> ''.git'' \<in> set (map fst entries)
      \<and> Mercurial_init wd (source_folder td) = Inr hg_d
      \<and> Git_init wd (source_folder td) = Inr (git_d, warnings_d)
      \<and> claim_vcs_source wd Cls_Perforce (source_folder td)
            (remove1 ''.git'' (remove1 ''.hg'' (map fst entries))) td = Inr (p4_d, dirs_d)"
  show "map_of registry (source_folder td)
          = Some (case p4_d of None \<Rightarrow> git_d | Some p4_handle \<Rightarrow> p4_handle)"
    by (rule tree_root_both_markers[OF a[THEN conjunct1] a[THEN conjunct2, THEN conjunct1] a[THEN conjunct2, THEN conjunct2, THEN conjunct1] a[THEN conjunct2, THEN conjunct2, THEN conjunct2, THEN conjunct1] a[THEN conjunct2, THEN conjunct2, THEN conjunct2, THEN conjunct2, THEN conjunct1] a[THEN conjunct2, THEN conjunct2, THEN conjunct2, THEN conjunct2, THEN conjunct2, THEN conjunct1] a[THEN conjunct2, THEN conjunct2, THEN conjunct2, THEN conjunct2, THEN conjunct2, THEN conjunct2, THEN conjunct1] a[THEN conjunct2, THEN conjunct2, THEN conjunct2, THEN conjunct2, THEN conjunct2, THEN conjunct2, THEN conjunct2]])
next
  assume a: "walk wa ta (source_folder ta) (walk_top wa) [] = Inr s1
      \<and> source_folder ta \<notin> fst ` set s1 \<and> source_folder ta \<noteq> ''/''
      \<and> listdir wa (dirname (source_folder ta)) = Inr names_a
      \<and> ''.hg'' \<in> set names_a \<and> ''.git'' \<in> set names_a
      \<and> Mercurial_init wa (dirname (source_folder ta)) = Inr hg_a
      \<and> Git_init wa (dirname (source_folder ta)) = Inr (git_a, warnings_a)
      \<and> claim_vcs_source wa Cls_Perforce (dirname (source_folder ta)) names_a ta
            = Inr (p4_a, names_a')"
  show "\<exists>registry_a. tree_to_repos wa ta = Some (Inr registry_a)
           \<and> map_of registry_a (dirname (source_folder ta))
               = Some (case p4_a of None \<Rightarrow> git_a | Some p4_handle \<Rightarrow> p4_handle)"
    by (rule ancestor_both_markers[OF a[THEN conjunct1] a[THEN conjunct2, THEN conjunct1] a[THEN conjunct2, THEN conjunct2, THEN conjunct1] a[THEN conjunct2, THEN conjunct2, THEN conjunct2, THEN conjunct1] a[THEN conjunct2, THEN conjunct2, THEN conjunct2, THEN conjunct2, THEN conjunct1] a[THEN conjunct2, THEN conjunct2, THEN conjunct2, THEN conjunct2, THEN conjunct2, THEN conjunct1] a[THEN conjunct2, THEN conjunct2, THEN conjunct2, THEN conjunct2, THEN conjunct2, THEN conjunct2, THEN conjunct1] a[THEN conjunct2, THEN conjunct2, THEN conjunct2, THEN conjunct2, THEN conjunct2, THEN conjunct2, THEN conjunct2, THEN conjunct1] a[THEN conjunct2, THEN conjunct2, THEN conjunct2, THEN conjunct2, THEN conjunct2, THEN conjunct2, THEN conjunct2, THEN conjunct2]])
qed

theorem every_class_attempted_last_claim_wins_witness:
  "claim_each ex_world_both ex_tree every_vcs ''/src'' [''.git'', ''.hg'', ''docs''] []
     = Inr ([''docs''],
            set_root None (set_root (Some (ex_git_handle ''/src'')) (set_root (Some ex_hg_handle) [])))
   \<and> claim_up ex_world_anc ex_anc_tree every_vcs ''/home/dev'' []
     = Inr (set_dir ''/home/dev'' None
              (set_dir ''/home/dev'' (Some (ex_git_handle ''/home/dev''))
                 (set_dir ''/home/dev'' (Some (ex_hg_handle_at ''/home/dev'')) [])))
   \<and> map_of [(''/src'', ex_git_handle ''/src'')] (source_folder ex_tree)
     = Some (case None of None \<Rightarrow> ex_git_handle ''/src'' | Some p4_handle \<Rightarrow> p4_handle)
   \<and> (\<exists>registry_a. tree_to_repos ex_world_anc ex_anc_tree = Some (Inr registry_a)
        \<and> map_of registry_a (dirname (source_folder ex_anc_tree))
            = Some (case None of None \<Rightarrow> ex_git_handle ''/home/dev''
                    | Some p4_handle \<Rightarrow> p4_handle))"
proof -
  have p1: "claim_vcs_source ex_world_both Cls_Mercurial ''/src'' [''.git'', ''.hg'', ''docs''] ex_tree
              = Inr (Some ex_hg_handle, [''.git'', ''docs''])
      \<and> claim_vcs_source ex_world_both Cls_Git ''/src'' [''.git'', ''docs''] ex_tree
              = Inr (Some (ex_git_handle ''/src''), [''docs''])
      \<and> claim_vcs_source ex_world_both Cls_Perforce ''/src'' [''docs''] ex_tree
              = Inr (None, [''docs''])"
    by code_simp
  have p2: "listdir ex_world_anc ''/home/dev'' = Inr [''.git'', ''.hg'', ''project'']
      \<and> claim_vcs_source ex_world_anc Cls_Mercurial ''/home/dev'' [''.git'', ''.hg'', ''project''] ex_anc_tree
              = Inr (Some (ex_hg_handle_at ''/home/dev''), [''.git'', ''project''])
      \<and> claim_vcs_source ex_world_anc Cls_Git ''/home/dev'' [''.git'', ''.hg'', ''project''] ex_anc_tree
              = Inr (Some (ex_git_handle ''/home/dev''), [''.hg'', ''project''])
      \<and> claim_vcs_source ex_world_anc Cls_Perforce ''/home/dev'' [''.git'', ''.hg'', ''project''] ex_anc_tree
              = Inr (None, [''.git'', ''.hg'', ''project''])"
    by code_simp
  have p3: "tree_to_repos ex_world_both ex_tree = Some (Inr [(''/src'', ex_git_handle ''/src'')])
      \<and> walk_top ex_world_both
          = Listing [(''.git'', Listing [] [''config'']), (''.hg'', Listing [] [''hgrc'']),
                     (''docs'', Listing [] [])] [''main.c'']
      \<and> names_ok (walk_top ex_world_both)
      \<and> ''.hg'' \<in> set (map fst [(''.git'', Listing [] [''config'']), (''.hg'', Listing [] [''hgrc'']),
                                    (''docs'', Listing [] [])])
      \<and> ''.git'' \<in> set (map fst [(''.git'', Listing [] [''config'']), (''.hg'', Listing [] [''hgrc'']),
                                     (''docs'', Listing [] [])])
      \<and> Mercurial_init ex_world_both (source_folder ex_tree) = Inr ex_hg_handle
      \<and> Git_init ex_world_both (source_folder ex_tree) = Inr (ex_git_handle ''/src'', [])
      \<and> claim_vcs_source ex_world_both Cls_Perforce (source_folder ex_tree)
            (remove1 ''.git'' (remove1 ''.hg''
               (map fst [(''.git'', Listing [] [''config'']), (''.hg'', Listing [] [''hgrc'']),
                         (''docs'', Listing [] [])]))) ex_tree = Inr (None, [''docs''])"
    by code_simp
  have p4: "walk ex_world_anc ex_anc_tree (source_folder ex_anc_tree) (walk_top ex_world_anc) [] = Inr []
      \<and> source_folder ex_anc_tree \<notin> fst ` set [] \<and> source_folder ex_anc_tree \<noteq> ''/''
      \<and> listdir ex_world_anc (dirname (source_folder ex_anc_tree)) = Inr [''.git'', ''.hg'', ''project'']
      \<and> ''.hg'' \<in> set [''.git'', ''.hg'', ''project''] \<and> ''.git'' \<in> set [''.git'', ''.hg'', ''project'']
      \<and> Mercurial_init ex_world_anc (dirname (source_folder ex_anc_tree))
           = Inr (ex_hg_handle_at ''/home/dev'')
      \<and> Git_init ex_world_anc (dirname (source_folder ex_anc_tree))
           = Inr (ex_git_handle ''/home/dev'', [])
      \<and> claim_vcs_source ex_world_anc Cls_Perforce (dirname (source_folder ex_anc_tree))
            [''.git'', ''.hg'', ''project''] ex_anc_tree = Inr (None, [''.git'', ''.hg'', ''project''])"
    by code_simp
  note T = every_class_attempted_last_claim_wins
  from T[THEN conjunct1, THEN mp, OF p1]
  have r1: "claim_each ex_world_both ex_tree every_vcs ''/src'' [''.git'', ''.hg'', ''docs''] []
     = Inr ([''docs''],
            set_root None (set_root (Some (ex_git_handle ''/src'')) (set_root (Some ex_hg_handle) [])))" .
  from T[THEN conjunct2, THEN conjunct1, THEN mp, OF p2]
  have r2: "claim_up ex_world_anc ex_anc_tree every_vcs ''/home/dev'' []
     = Inr (set_dir ''/home/dev'' None
              (set_dir ''/home/dev'' (Some (ex_git_handle ''/home/dev''))
                 (set_dir ''/home/dev'' (Some (ex_hg_handle_at ''/home/dev'')) [])))" .
  from T[THEN conjunct2, THEN conjunct2, THEN conjunct1, THEN mp, OF p3]
  have r3: "map_of [(''/src'', ex_git_handle ''/src'')] (source_folder ex_tree)
     = Some (case None of None \<Rightarrow> ex_git_handle ''/src'' | Some p4_handle \<Rightarrow> p4_handle)" .
  from T[THEN conjunct2, THEN conjunct2, THEN conjunct2, THEN mp, OF p4]
  have r4: "\<exists>registry_a. tree_to_repos ex_world_anc ex_anc_tree = Some (Inr registry_a)
        \<and> map_of registry_a (dirname (source_folder ex_anc_tree))
            = Some (case None of None \<Rightarrow> ex_git_handle ''/home/dev''
                    | Some p4_handle \<Rightarrow> p4_handle)" .
  from r1 r2 r3 r4 show ?thesis by (intro conjI)
qed

text \<open>
  The claim as written fails: in a tree whose root holds \<^verbatim>\<open>.git\<close> and \<^verbatim>\<open>.hg\<close>, Mercurial,
  first in the order, claims the root, and the registry nevertheless maps the root to
  the Git handle.
\<close>

theorem first_class_does_not_win_counterexample:
  "claim_vcs_source ex_world_both Cls_Mercurial ''/src'' [''.git'', ''.hg'', ''docs''] ex_tree
     = Inr (Some ex_hg_handle, [''.git'', ''docs''])
   \<and> tree_to_repos ex_world_both ex_tree = Some (Inr [(''/src'', ex_git_handle ''/src'')])
   \<and> ex_git_handle ''/src'' \<noteq> ex_hg_handle"
  by code_simp

lemma map_fst_map_filter:
  "\<forall>k \<in> set ks. map_of al k \<noteq> None \<Longrightarrow>
     map fst (List.map_filter (\<lambda>key. map_option (Pair key) (map_of al key)) ks) = ks"
  by (induction ks) (auto simp: List.map_filter_simps)

lemma keys_ordered_sources: "map fst (ordered_sources sources) = lookup_order sources"
proof -
  have "\<forall>k \<in> set (lookup_order sources). map_of sources k \<noteq> None"
    by (auto simp: lookup_order_def map_of_eq_None_iff)
  then show ?thesis unfolding ordered_sources_def by (rule map_fst_map_filter)
qed

lemma lookup_order_descending: "sorted (rev (map length (lookup_order sources)))"
  by (simp add: lookup_order_def rev_map[symmetric])

lemma strict_subdir_longer: "strict_subdir r1 r2 \<Longrightarrow> length r2 < length r1"
  by (auto simp: strict_subdir_def Let_def split: if_splits)

lemma ordered_sources_deepest_first:
  assumes "registry = ordered_sources sources"
    and "i < length registry" and "j < length registry"
    and "strict_subdir (fst (registry ! i)) (fst (registry ! j))"
  shows "i < j"
proof (rule ccontr)
  assume "\<not> i < j"
  then have ji: "j \<le> i" by simp
  have keys: "map fst registry = lookup_order sources"
    using assms(1) keys_ordered_sources by simp
  have srt: "sorted (rev (map length (map fst registry)))"
    using lookup_order_descending[of sources] keys by simp
  have "map length (map fst registry) ! i \<le> map length (map fst registry) ! j"
    using sorted_rev_nth_mono[OF srt ji] assms(2) by simp
  then have "length (fst (registry ! i)) \<le> length (fst (registry ! j))"
    using assms(2,3) by simp
  with strict_subdir_longer[OF assms(4)] show False by simp
qed

lemma tree_to_repos_ordered:
  "tree_to_repos w t = Some (Inr registry) \<Longrightarrow> \<exists>sources. registry = ordered_sources sources"
  by (auto simp: tree_to_repos_def split: sum.splits option.splits)

text \<open>
  C2. In the registry returned by \<^verbatim>\<open>tree_to_repos\<close> the keys are in order of path length,
  longest first, and whenever the root at position \<open>i\<close> is a strict subdirectory of the
  root at position \<open>j\<close> (its path is the other path, a slash, and more), \<open>i\<close> comes before
  \<open>j\<close>: the nested root is consulted before its ancestor. This does not depend on the
  order in which the dict hands out its keys.
\<close>

theorem deeper_root_precedes_ancestor:
  assumes "tree_to_repos w t = Some (Inr registry)"
    and "i < length registry" and "j < length registry"
    and "strict_subdir (fst (registry ! i)) (fst (registry ! j))"
  shows "i < j \<and> sorted (rev (map (\<lambda>(r, v). length r) registry))"
proof -
  from tree_to_repos_ordered[OF assms(1)] obtain sources
    where reg: "registry = ordered_sources sources" by blast
  have "i < j" using ordered_sources_deepest_first[OF reg assms(2,3,4)] .
  moreover have "map (\<lambda>(r, v). length r) registry = map length (map fst registry)"
    by (simp add: case_prod_unfold)
  then have "sorted (rev (map (\<lambda>(r, v). length r) registry))"
    using lookup_order_descending[of sources] keys_ordered_sources[of sources] reg by simp
  ultimately show ?thesis by simp
qed

theorem deeper_root_precedes_ancestor_witness:
  "(0::nat) < 1
   \<and> sorted (rev (map (\<lambda>(r, v). length r)
        [(''/src/vendor/lib'', ex_git_handle ''/src/vendor/lib''), (''/src'', ex_hg_handle)]))"
proof -
  have h1: "tree_to_repos ex_world_nested ex_tree =
     Some (Inr [(''/src/vendor/lib'', ex_git_handle ''/src/vendor/lib''), (''/src'', ex_hg_handle)])"
    by code_simp
  have h2: "0 < length [(''/src/vendor/lib'', ex_git_handle ''/src/vendor/lib''), (''/src'', ex_hg_handle)]"
    by simp
  have h3: "1 < length [(''/src/vendor/lib'', ex_git_handle ''/src/vendor/lib''), (''/src'', ex_hg_handle)]"
    by simp
  have h4: "strict_subdir
      (fst ([(''/src/vendor/lib'', ex_git_handle ''/src/vendor/lib''), (''/src'', ex_hg_handle)] ! 0))
      (fst ([(''/src/vendor/lib'', ex_git_handle ''/src/vendor/lib''), (''/src'', ex_hg_handle)] ! 1))"
    by code_simp
  show ?thesis by (rule deeper_root_precedes_ancestor[OF h1 h2 h3 h4])
qed

lemma walk_up_skip:
  "\<forall>k<m. (dirname ^^ k) sf \<noteq> ''/'' \<and> (dirname ^^ k) sf \<notin> fst ` set sources
          \<and> claim_up w t every_vcs ((dirname ^^ Suc k) sf) sources = Inr sources \<Longrightarrow>
   walk_up w t sf sources = walk_up w t ((dirname ^^ m) sf) sources"
proof (induction m)
  case 0
  show ?case by simp
next
  case (Suc m)
  then have "walk_up w t sf sources = walk_up w t ((dirname ^^ m) sf) sources" by simp
  also have "\<dots> = walk_up w t (dirname ((dirname ^^ m) sf)) sources"
    using Suc.prems by (intro walk_up_step) auto
  finally show ?case by simp
qed

lemma walk_up_first_claim:
  assumes "\<forall>k\<le>m. (dirname ^^ k) sf \<noteq> ''/'' \<and> (dirname ^^ k) sf \<notin> fst ` set sources"
    and "\<forall>k<m. claim_up w t every_vcs ((dirname ^^ Suc k) sf) sources = Inr sources"
    and "claim_up w t every_vcs ((dirname ^^ Suc m) sf) sources = Inr sources'"
    and "(dirname ^^ Suc m) sf \<in> fst ` set sources'"
  shows "walk_up w t sf sources = Some (Inr sources')"
proof -
  have "walk_up w t sf sources = walk_up w t ((dirname ^^ m) sf) sources"
    using assms(1,2) by (intro walk_up_skip) auto
  also have "\<dots> = walk_up w t (dirname ((dirname ^^ m) sf)) sources'"
    using assms(1,3) by (intro walk_up_step) auto
  also have "\<dots> = Some (Inr sources')"
    using assms(4) by (intro walk_up_stop) simp
  finally show ?thesis .
qed

lemma walk_up_no_claim:
  assumes "(dirname ^^ n) sf = ''/''"
    and "\<forall>k<n. (dirname ^^ k) sf \<noteq> ''/'' \<and> (dirname ^^ k) sf \<notin> fst ` set sources"
    and "\<forall>k<n. claim_up w t every_vcs ((dirname ^^ Suc k) sf) sources = Inr sources"
  shows "walk_up w t sf sources = Some (Inr sources)"
proof -
  have "walk_up w t sf sources = walk_up w t ((dirname ^^ n) sf) sources"
    using assms(2,3) by (intro walk_up_skip) auto
  also have "\<dots> = Some (Inr sources)"
    using assms(1) by (intro walk_up_stop) simp
  finally show ?thesis .
qed



text \<open>
  \<^verbatim>\<open>os.path.dirname\<close> of an absolute path with one leading slash, other than \<^verbatim>\<open>/\<close>, is
  again such a path and is strictly shorter; so the ancestors of such a tree root reach
  \<^verbatim>\<open>/\<close>, and the upward walk from it returns.
\<close>

lemma single_slash_abs_cases:
  "single_slash_abs p \<longleftrightarrow> p = ''/'' \<or> (\<exists>c rest. p = CHR ''/'' # c # rest \<and> c \<noteq> CHR ''/'')"
proof (cases p)
  case Nil
  then show ?thesis by (simp add: single_slash_abs_def startswith_def)
next
  case (Cons a q)
  then show ?thesis
    by (cases q) (auto simp: single_slash_abs_def startswith_def)
qed

lemma rev_dropWhile_prefix: "prefix (rev (dropWhile P (rev xs))) xs"
proof -
  have "rev (dropWhile P (rev xs)) @ rev (takeWhile P (rev xs))
          = rev (takeWhile P (rev xs) @ dropWhile P (rev xs))"
    by (simp only: rev_append)
  also have "\<dots> = rev (rev xs)" by (simp only: takeWhile_dropWhile_id)
  also have "\<dots> = xs" by simp
  finally have "xs = rev (dropWhile P (rev xs)) @ rev (takeWhile P (rev xs))" by (rule sym)
  then show ?thesis by (rule prefixI)
qed

lemma rev_dropWhile_nonempty: "\<exists>x\<in>set xs. \<not> P x \<Longrightarrow> rev (dropWhile P (rev xs)) \<noteq> []"
  by (simp add: dropWhile_eq_Nil_conv)

lemma not_replicate_has_other: "xs \<noteq> replicate (length xs) a \<Longrightarrow> \<exists>x\<in>set xs. x \<noteq> a"
  using replicate_length_same[of xs a] by auto

lemma rev_dropWhile_self: "rev (dropWhile P (rev xs)) = xs \<Longrightarrow> xs = [] \<or> \<not> P (last xs)"
proof -
  assume "rev (dropWhile P (rev xs)) = xs"
  then have "dropWhile P (rev xs) = rev xs" by (metis rev_rev_ident)
  then have "rev xs = [] \<or> \<not> P (hd (rev xs))" by (simp add: dropWhile_eq_self_iff)
  then show ?thesis by (auto simp: hd_rev)
qed


lemma dirname_prefix: "prefix (dirname p) p"
proof -
  let ?head = "rev (dropWhile (\<lambda>c. c \<noteq> CHR ''/'') (rev p))"
  have h: "prefix ?head p" by (rule rev_dropWhile_prefix)
  have r: "prefix (rstrip_slash ?head) ?head"
    unfolding rstrip_slash_def by (rule rev_dropWhile_prefix)
  from r h have "prefix (rstrip_slash ?head) p" by (rule prefix_order.trans)
  with h show ?thesis by (simp add: dirname_def Let_def)
qed

lemma dirname_nonempty:
  assumes "CHR ''/'' \<in> set p"
  shows "dirname p \<noteq> []"
proof -
  let ?head = "rev (dropWhile (\<lambda>c. c \<noteq> CHR ''/'') (rev p))"
  have h: "?head \<noteq> []" using assms by (intro rev_dropWhile_nonempty) auto
  show ?thesis
  proof (cases "?head \<noteq> replicate (length ?head) CHR ''/''")
    case True
    from not_replicate_has_other[OF True]
    have "rstrip_slash ?head \<noteq> []"
      unfolding rstrip_slash_def by (intro rev_dropWhile_nonempty) auto
    then show ?thesis using True h by (simp add: dirname_def Let_def)
  next
    case False
    then show ?thesis using h by (simp add: dirname_def Let_def)
  qed
qed


lemma dirname_not_self:
  assumes "p = CHR ''/'' # c # rest" and "c \<noteq> CHR ''/''"
  shows "dirname p \<noteq> p"
proof
  assume eq: "dirname p = p"
  let ?head = "rev (dropWhile (\<lambda>c. c \<noteq> CHR ''/'') (rev p))"
  have hp: "prefix ?head p" by (rule rev_dropWhile_prefix)
  have pne: "p \<noteq> []" using assms(1) by simp
  show False
  proof (cases "?head \<noteq> [] \<and> ?head \<noteq> replicate (length ?head) CHR ''/''")
    case True
    then have d: "dirname p = rstrip_slash ?head" by (simp add: dirname_def Let_def)
    have "prefix (rstrip_slash ?head) ?head"
      unfolding rstrip_slash_def by (rule rev_dropWhile_prefix)
    then have "prefix p ?head" using d eq by simp
    with hp have hd: "?head = p" by (rule prefix_order.antisym)
    then have "last p = CHR ''/''" using rev_dropWhile_self[OF hd] pne by simp
    moreover have "rstrip_slash p = p" using d eq hd by simp
    then have "last p \<noteq> CHR ''/''"
      unfolding rstrip_slash_def using rev_dropWhile_self[of "\<lambda>c. c = CHR ''/''" p] pne by simp
    ultimately show False by simp
  next
    case False
    then have d: "dirname p = ?head" by (auto simp: dirname_def Let_def)
    then have hd: "?head = p" using eq by simp
    then have "p = replicate (length p) CHR ''/''" using False pne by simp
    then have "\<forall>x\<in>set p. x = CHR ''/''" by (metis in_set_replicate)
    then show False using assms by simp
  qed
qed

lemma prefix_single_slash_abs:
  assumes "p = CHR ''/'' # c # rest" and "c \<noteq> CHR ''/''" and "prefix q p" and "q \<noteq> []"
  shows "single_slash_abs q"
proof -
  from assms(3,4,1) obtain q' where q: "q = CHR ''/'' # q'" "prefix q' (c # rest)"
    by (cases q) auto
  show ?thesis
  proof (cases q')
    case Nil
    then show ?thesis using q by (simp add: single_slash_abs_cases)
  next
    case (Cons a q'')
    then have "a = c" using q(2) by simp
    then show ?thesis using q(1) Cons assms(2) by (simp add: single_slash_abs_cases)
  qed
qed

lemma dirname_single_slash_abs:
  assumes "single_slash_abs p" and "p \<noteq> ''/''"
  shows "single_slash_abs (dirname p) \<and> length (dirname p) < length p"
proof -
  from assms obtain c rest where p: "p = CHR ''/'' # c # rest" "c \<noteq> CHR ''/''"
    by (auto simp: single_slash_abs_cases)
  have pre: "prefix (dirname p) p" by (rule dirname_prefix)
  have ne: "dirname p \<noteq> []" using p(1) by (intro dirname_nonempty) simp
  have a: "single_slash_abs (dirname p)" using p pre ne by (rule prefix_single_slash_abs)
  have "dirname p \<noteq> p" using p by (rule dirname_not_self)
  with pre have "strict_prefix (dirname p) p" by (simp add: strict_prefix_def)
  then have "length (dirname p) < length p" by (rule prefix_length_less)
  with a show ?thesis by simp
qed

lemma dirname_reaches_root:
  "single_slash_abs p \<Longrightarrow> \<exists>n. (dirname ^^ n) p = ''/''"
proof (induction "length p" arbitrary: p rule: less_induct)
  case less
  show ?case
  proof (cases "p = ''/''")
    case True
    then have "(dirname ^^ 0) p = ''/''" by simp
    then show ?thesis by blast
  next
    case False
    from dirname_single_slash_abs[OF less.prems False]
    have "single_slash_abs (dirname p)" "length (dirname p) < length p" by simp_all
    from less.hyps[OF this(2) this(1)] obtain n where "(dirname ^^ n) (dirname p) = ''/''" by blast
    then have "(dirname ^^ Suc n) p = ''/''" by (simp add: funpow_swap1)
    then show ?thesis by blast
  qed
qed

lemma walk_up_returns:
  "single_slash_abs p \<Longrightarrow> \<exists>r. walk_up w t p sources = Some r"
proof (induction "length p" arbitrary: p sources rule: less_induct)
  case less
  show ?case
  proof (cases "p \<noteq> ''/'' \<and> p \<notin> fst ` set sources")
    case False
    then show ?thesis by (subst walk_up.simps) auto
  next
    case True
    from dirname_single_slash_abs[OF less.prems] True
    have d: "single_slash_abs (dirname p)" "length (dirname p) < length p" by simp_all
    show ?thesis
    proof (cases "claim_up w t every_vcs (dirname p) sources")
      case (Inl e)
      then show ?thesis using True by (subst walk_up.simps) simp
    next
      case (Inr sources')
      from less.hyps[OF d(2) d(1), of sources'] obtain r
        where "walk_up w t (dirname p) sources' = Some r" by blast
      then show ?thesis using True Inr by (subst walk_up.simps) simp
    qed
  qed
qed

text \<open>
  The condition on the spelling of the tree root is needed for that: \<^verbatim>\<open>dirname('//')\<close> is
  \<^verbatim>\<open>'//'\<close>, which is not the string \<^verbatim>\<open>'/'\<close> of the loop condition, so from a path spelled with
  two leading slashes the loop stays at \<^verbatim>\<open>'//'\<close> for as long as no class claims it.
\<close>

lemma walk_up_double_slash_aux:
  assumes c: "claim_up w t every_vcs ''//'' [] = Inr []"
    and r: "walk_up w' t' d' s' = Some y'"
  shows "\<not> (w' = w \<and> t' = t \<and> d' = ''//'' \<and> s' = [])"
proof (rule walk_up.raw_induct[where P = "\<lambda>a b c d e. \<not> (a = w \<and> b = t \<and> c = ''//'' \<and> d = [])", OF _ r])
  fix f a b c d e
  assume IH: "\<And>a b c d y. f a b c d = Some y \<Longrightarrow> \<not> (a = w \<and> b = t \<and> c = ''//'' \<and> d = [])"
    and body: "(if c \<noteq> ''/'' \<and> c \<notin> fst ` set d
                then case claim_up a b every_vcs (dirname c) d of
                       Inl e \<Rightarrow> Some (Inl e)
                     | Inr sources' \<Rightarrow> f a b (dirname c) sources'
                else Some (Inr d)) = Some e"
  have dd: "dirname ''//'' = ''//''" by code_simp
  show "\<not> (a = w \<and> b = t \<and> c = ''//'' \<and> d = [])"
  proof
    assume eq: "a = w \<and> b = t \<and> c = ''//'' \<and> d = []"
    with body c dd have "f w t ''//'' [] = Some e" by simp
    from IH[OF this] show False by simp
  qed
qed

lemma walk_up_double_slash_diverges:
  assumes "claim_up w t every_vcs ''//'' [] = Inr []"
  shows "walk_up w t ''//'' [] = None"
proof (rule ccontr)
  assume "walk_up w t ''//'' [] \<noteq> None"
  then obtain y where y: "walk_up w t ''//'' [] = Some y" by auto
  from walk_up_double_slash_aux[OF assms y] show False by simp
qed

text \<open>
  What the upward walk does where it returns. It starts at the tree root \<open>sf\<close>, which is not among the claimed
  roots; its ancestors are \<open>dirname sf\<close>, \<open>dirname (dirname sf)\<close>, and so on, and at each
  of them every class of \<open>every_vcs\<close> is given its attempt (\<open>claim_up\<close>). First part: if the
  first \<open>m\<close> ancestors are claimed by no class and the next one is claimed, the walk ends
  there, and its result is \<open>sources\<close> with that one ancestor added. Second part: if the
  walk reaches the filesystem root after \<open>n\<close> steps and no class claims any of the \<open>n\<close>
  ancestors, the filesystem root included, the walk ends and \<open>sources\<close> is unchanged. In
  both parts the walk returns: its value is \<open>Some\<close>. Third part: from every tree root
  that is an absolute path with one leading slash the walk returns, with a registry or
  with the exception of a failed \<^verbatim>\<open>listdir\<close> or constructor.
\<close>

lemma upward_walk_stops_at_first_claim:
  "((\<forall>k<Suc m. (dirname ^^ k) sf \<noteq> ''/'' \<and> (dirname ^^ k) sf \<notin> fst ` set sources)
      \<and> (\<forall>k<m. claim_up w t every_vcs ((dirname ^^ Suc k) sf) sources = Inr sources)
      \<and> claim_up w t every_vcs ((dirname ^^ Suc m) sf) sources = Inr sources'
      \<and> (dirname ^^ Suc m) sf \<in> fst ` set sources'
    \<longrightarrow> walk_up w t sf sources = Some (Inr sources'))
   \<and> ((dirname ^^ n) sf2 = ''/''
      \<and> (\<forall>k<n. (dirname ^^ k) sf2 \<noteq> ''/'' \<and> (dirname ^^ k) sf2 \<notin> fst ` set sources2)
      \<and> (\<forall>k<n. claim_up w2 t2 every_vcs ((dirname ^^ Suc k) sf2) sources2 = Inr sources2)
    \<longrightarrow> walk_up w2 t2 sf2 sources2 = Some (Inr sources2))
   \<and> (single_slash_abs sf3 \<longrightarrow> (\<exists>r. walk_up w3 t3 sf3 sources3 = Some r))"
proof (intro conjI impI)
  assume a: "(\<forall>k<Suc m. (dirname ^^ k) sf \<noteq> ''/'' \<and> (dirname ^^ k) sf \<notin> fst ` set sources)
      \<and> (\<forall>k<m. claim_up w t every_vcs ((dirname ^^ Suc k) sf) sources = Inr sources)
      \<and> claim_up w t every_vcs ((dirname ^^ Suc m) sf) sources = Inr sources'
      \<and> (dirname ^^ Suc m) sf \<in> fst ` set sources'"
  then have "\<forall>k\<le>m. (dirname ^^ k) sf \<noteq> ''/'' \<and> (dirname ^^ k) sf \<notin> fst ` set sources"
    by (simp add: less_Suc_eq_le)
  with a show "walk_up w t sf sources = Some (Inr sources')"
    by (intro walk_up_first_claim[where m = m]) blast+
next
  assume b: "(dirname ^^ n) sf2 = ''/''
      \<and> (\<forall>k<n. (dirname ^^ k) sf2 \<noteq> ''/'' \<and> (dirname ^^ k) sf2 \<notin> fst ` set sources2)
      \<and> (\<forall>k<n. claim_up w2 t2 every_vcs ((dirname ^^ Suc k) sf2) sources2 = Inr sources2)"
  then show "walk_up w2 t2 sf2 sources2 = Some (Inr sources2)"
    by (intro walk_up_no_claim[where n = n]) blast+
next
  assume "single_slash_abs sf3"
  then show "\<exists>r. walk_up w3 t3 sf3 sources3 = Some r" by (rule walk_up_returns)
qed

lemma upward_walk_examples:
  "walk_up ex_world_up ex_up_tree ''/home/dev/project/src'' []
     = Some (Inr [(''/home/dev'', ex_git_handle ''/home/dev'')])
   \<and> walk_up ex_world_plain ex_plain_tree ''/srv/tree'' [] = Some (Inr [])
   \<and> (\<exists>r. walk_up ex_world_up ex_up_tree ''/home/dev/project/src'' [] = Some r)"
proof -
  have g: "single_slash_abs ''/home/dev/project/src''" by code_simp
  have d1: "dirname ''/home/dev/project/src'' = ''/home/dev/project''" by code_simp
  have d2: "dirname ''/home/dev/project'' = ''/home/dev''" by code_simp
  have c1: "claim_up ex_world_up ex_up_tree every_vcs ''/home/dev/project'' [] = Inr []"
    by code_simp
  have c2: "claim_up ex_world_up ex_up_tree every_vcs ''/home/dev'' []
              = Inr [(''/home/dev'', ex_git_handle ''/home/dev'')]"
    by code_simp
  have e1: "dirname ''/srv/tree'' = ''/srv''" by code_simp
  have e2: "dirname ''/srv'' = ''/''" by code_simp
  have f1: "claim_up ex_world_plain ex_plain_tree every_vcs ''/srv'' [] = Inr []"
    by code_simp
  have f2: "claim_up ex_world_plain ex_plain_tree every_vcs ''/'' [] = Inr []"
    by code_simp
  show ?thesis
    using upward_walk_stops_at_first_claim[of "Suc 0" "''/home/dev/project/src''" "[]" ex_world_up ex_up_tree
                "[(''/home/dev'', ex_git_handle ''/home/dev'')]"
                "Suc (Suc 0)" "''/srv/tree''" "[]" ex_world_plain ex_plain_tree
                "''/home/dev/project/src''" ex_world_up ex_up_tree "[]"]
      d1 d2 c1 c2 e1 e2 f1 f2 g
    by (simp add: All_less_Suc)
qed

text \<open>
  C9 (the code departs from the claim). For the tree root \<^verbatim>\<open>//tmp/x\<close>, spelled with two
  leading slashes, in a file system without any marker and with \<^verbatim>\<open>P4CONFIG\<close> unset: the
  downward walk claims nothing, the upward walk attempts every class at \<^verbatim>\<open>//tmp\<close> and
  at \<^verbatim>\<open>//\<close>, the filesystem root, and no class claims either. The walk should end there
  with nothing added. But \<^verbatim>\<open>dirname('//')\<close> is \<^verbatim>\<open>'//'\<close> and the loop condition compares with
  the string \<^verbatim>\<open>'/'\<close>, so the loop goes on at \<^verbatim>\<open>//\<close> for ever: \<^verbatim>\<open>tree_to_repos\<close> does not
  return.
\<close>

theorem upward_walk_from_double_slash_never_returns:
  "walk ex_world_dslash ex_dslash_tree (source_folder ex_dslash_tree) (walk_top ex_world_dslash) []
     = Inr []
   \<and> dirname ''//tmp/x'' = ''//tmp'' \<and> dirname ''//tmp'' = ''//'' \<and> dirname ''//'' = ''//''
   \<and> claim_up ex_world_dslash ex_dslash_tree every_vcs ''//tmp'' [] = Inr []
   \<and> claim_up ex_world_dslash ex_dslash_tree every_vcs ''//'' [] = Inr []
   \<and> walk_up ex_world_dslash ex_dslash_tree ''//tmp/x'' [] = None
   \<and> tree_to_repos ex_world_dslash ex_dslash_tree = None"
proof -
  have w0: "walk ex_world_dslash ex_dslash_tree (source_folder ex_dslash_tree)
              (walk_top ex_world_dslash) [] = Inr []"
    by code_simp
  have sf: "source_folder ex_dslash_tree = ''//tmp/x''" by (simp add: ex_dslash_tree_def)
  have d1: "dirname ''//tmp/x'' = ''//tmp''" by code_simp
  have d2: "dirname ''//tmp'' = ''//''" by code_simp
  have d3: "dirname ''//'' = ''//''" by code_simp
  have c1: "claim_up ex_world_dslash ex_dslash_tree every_vcs ''//tmp'' [] = Inr []"
    by code_simp
  have c2: "claim_up ex_world_dslash ex_dslash_tree every_vcs ''//'' [] = Inr []"
    by code_simp
  have "walk_up ex_world_dslash ex_dslash_tree ''//tmp/x'' []
          = walk_up ex_world_dslash ex_dslash_tree (dirname ''//tmp/x'') []"
    using c1 d1 by (intro walk_up_step) simp_all
  also have "\<dots> = walk_up ex_world_dslash ex_dslash_tree (dirname ''//tmp'') []"
    unfolding d1 using c2 d2 by (intro walk_up_step) simp_all
  also have "\<dots> = None"
    unfolding d2 using c2 by (rule walk_up_double_slash_diverges)
  finally have up: "walk_up ex_world_dslash ex_dslash_tree ''//tmp/x'' [] = None" .
  have "tree_to_repos ex_world_dslash ex_dslash_tree = None"
    using w0 up sf by (simp add: tree_to_repos_def)
  with w0 d1 d2 d3 c1 c2 up show ?thesis by simp
qed

end
